theory Spec2Isabelle
  imports Complex_Main "HOL-Library.Sublist" "HOL-Library.AList"
begin

section \<open>Errors\<close>

text \<open>
  Every exception the modelled Python can raise is a value. An \<open>AssertionError\<close> carries
  the fixed part of the message of the \<open>assert\<close> that failed.
\<close>

datatype error =
    IndexError
  | KeyError string
  | AssertionError string
  | TypeError string
  | ValueError

section \<open>Operations (\<open>fastestimator/util/op.py\<close>)\<close>

text \<open>
  \<open>inputs\<close> and \<open>outputs\<close> of an operation are \<open>None\<close>, one key or a list of keys.
  \<open>truthy\<close> is Python's truth value of such a value, which the \<open>assert\<close>s and
  \<open>if\<close>s of the verifier test: \<open>None\<close>, the empty string and the empty list are false.
  Equality of the datatype is Python's \<open>==\<close>: a string never equals a list.
\<close>

datatype keys = NoKeys | Key string | KeyList "string list"

fun truthy :: "keys \<Rightarrow> bool" where
  "truthy NoKeys = False"
| "truthy (Key k) = (k \<noteq> [])"
| "truthy (KeyList ks) = (ks \<noteq> [])"

text \<open>
  \<open>mode\<close> is \<open>None\<close>, one mode string, a list whose elements are mode strings or
  \<open>None\<close>, or another iterable (a tuple), which \<open>isinstance(op_mode, list)\<close> does not
  recognise.
\<close>

datatype mode_decl =
    ModeNone
  | ModeStr string
  | ModeList "string option list"
  | ModeTuple "string option list"

text \<open>
  The class an operation object derives from, as far as \<open>isinstance\<close> in \<open>verify_ops\<close>
  can tell.
\<close>

datatype op_class = NumpyOpClass | TensorOpClass | TensorFilterClass | OtherClass

text \<open>
  What \<open>forward\<close> receives and returns: \<open>None\<close>, one array, or a list of arrays.
\<close>

datatype 'a data = NoData | One 'a | Many "'a list"

text \<open>
  The fields \<open>NumpyOp.__init__\<close> and \<open>TensorOp.__init__\<close> set, with the class of the object.
\<close>

record op_fields =
  inputs :: keys
  outputs :: keys
  mode :: mode_decl
  cls :: op_class

text \<open>
  An operation: the fields, its \<open>forward\<close> method (which may raise), and the
  \<open>in_list\<close>/\<open>out_list\<close> flags a concrete operation such as \<open>Binarize\<close> sets.
\<close>

record ('a, 's) operation = op_fields +
  forward :: "'a data \<Rightarrow> 's \<Rightarrow> error + 'a data"
  in_list :: bool
  out_list :: bool

text \<open>
  \<open>NumpyOp(inputs, outputs, mode)\<close> and \<open>TensorOp(inputs, outputs, mode)\<close>: the
  constructors store the three arguments, and \<open>forward\<close> returns its data.
\<close>

definition NumpyOp :: "keys \<Rightarrow> keys \<Rightarrow> mode_decl \<Rightarrow> ('a, 's) operation" where
  "NumpyOp ins outs md =
     \<lparr>inputs = ins, outputs = outs, mode = md, cls = NumpyOpClass,
      forward = (\<lambda>dat state. Inr dat), in_list = False, out_list = False\<rparr>"

definition TensorOp :: "keys \<Rightarrow> keys \<Rightarrow> mode_decl \<Rightarrow> ('a, 's) operation" where
  "TensorOp ins outs md =
     \<lparr>inputs = ins, outputs = outs, mode = md, cls = TensorOpClass,
      forward = (\<lambda>dat state. Inr dat), in_list = False, out_list = False\<rparr>"

subsection \<open>\<open>flatten_operation\<close>\<close>

text \<open>
  The argument of \<open>flatten_operation\<close>: an operation object, or a Python list whose
  elements are again such values.
\<close>

datatype 'a nested = Op 'a | Nest "'a nested list"

text \<open>
  \<open>if not isinstance(ops, list): ops = [ops]\<close>, then every element that is not a list is
  put into a list of its own, then \<open>chain.from_iterable\<close> joins the element lists. The
  elements of the result are whatever the inner lists held.
\<close>

fun as_list :: "'a nested \<Rightarrow> 'a nested list" where
  "as_list (Nest xs) = xs"
| "as_list (Op a) = [Op a]"

definition flatten_operation :: "'a nested \<Rightarrow> 'a nested list" where
  "flatten_operation ops = concat (map as_list (as_list ops))"

text \<open>
  The specification's side: the leaves of a nesting in depth-first left-to-right order, and
  how deep the lists of a nesting go (an operation alone has depth 0, a list of operations
  depth 1).
\<close>

fun leaves :: "'a nested \<Rightarrow> 'a list" where
  "leaves (Op a) = [a]"
| "leaves (Nest xs) = concat (map leaves xs)"

fun depth :: "'a nested \<Rightarrow> nat" where
  "depth (Op a) = 0"
| "depth (Nest xs) = Suc (fold max (map depth xs) 0)"

subsection \<open>\<open>get_op_from_mode\<close>\<close>

text \<open>
  The elements a mode list can hold, as values of the same kind as a declared mode: \<open>None\<close>
  or a mode string. The target mode \<open>current_mode\<close> is such a value too.
\<close>

fun mode_elem :: "string option \<Rightarrow> mode_decl" where
  "mode_elem None = ModeNone"
| "mode_elem (Some s) = ModeStr s"

text \<open>
  \<open>op_mode = op.mode\<close>, wrapped into a one-element list when it is not a list.
\<close>

fun op_mode_of :: "mode_decl \<Rightarrow> mode_decl list" where
  "op_mode_of (ModeList ms) = map mode_elem ms"
| "op_mode_of m = [m]"

text \<open>
  The test \<open>None in op_mode or current_mode in op_mode\<close>.
\<close>

definition selected :: "string option \<Rightarrow> 'z op_fields_scheme \<Rightarrow> bool" where
  "selected current_mode op =
     (let op_mode = op_mode_of (mode op)
      in ModeNone \<in> set op_mode \<or> mode_elem current_mode \<in> set op_mode)"

fun get_op_from_mode :: "'z op_fields_scheme list \<Rightarrow> string option \<Rightarrow> 'z op_fields_scheme list" where
  "get_op_from_mode [] current_mode = []"
| "get_op_from_mode (op # ops) current_mode =
     (if selected current_mode op
      then op # get_op_from_mode ops current_mode
      else get_op_from_mode ops current_mode)"

subsection \<open>\<open>verify_ops\<close>\<close>

text \<open>
  The table \<open>inheritage\<close>; an unknown class name is a \<open>KeyError\<close>.
\<close>

definition inheritage :: "string \<Rightarrow> op_class list option" where
  "inheritage class_name =
     (if class_name = ''RecordWriter'' then Some [NumpyOpClass]
      else if class_name = ''Pipeline'' then Some [TensorOpClass, TensorFilterClass]
      else if class_name = ''Network'' then Some [TensorOpClass]
      else None)"

definition isinstance :: "'z op_fields_scheme \<Rightarrow> op_class list \<Rightarrow> bool" where
  "isinstance op classes = (cls op \<in> set classes)"

text \<open>
  The \<open>for\<close> loop of \<open>verify_ops\<close> over the operations from position \<open>idx\<close> on. The
  variable \<open>inputs\<close> is bound once, before the loop, to the inputs of the first operation
  and is never assigned again; \<open>old_inputs\<close> is assigned and never read.
\<close>

fun verify_loop :: "op_class list \<Rightarrow> keys \<Rightarrow> 'z op_fields_scheme list \<Rightarrow> error + unit" where
  "verify_loop inheritage_class inputs0 [] = Inr ()"
| "verify_loop inheritage_class inputs0 (op # rest) =
     (if \<not> isinstance op inheritage_class
      then Inl (AssertionError ''doesn't have correct inheritage'')
      else (case rest of
              [] \<Rightarrow> Inr ()
            | nxt # _ \<Rightarrow>
                if truthy (inputs nxt) then
                  (let old_inputs = inputs op;
                       new_inputs = inputs nxt
                   in if truthy new_inputs \<and> new_inputs \<noteq> inputs0
                      then (if \<not> truthy (outputs op)
                            then Inl (AssertionError ''must provide outputs, otherwise the result will be lost'')
                            else verify_loop inheritage_class inputs0 rest)
                      else verify_loop inheritage_class inputs0 rest)
                else verify_loop inheritage_class inputs0 rest))"

definition verify_ops :: "'z op_fields_scheme list \<Rightarrow> string \<Rightarrow> error + unit" where
  "verify_ops ops class_name =
     (case inheritage class_name of
        None \<Rightarrow> Inl (KeyError class_name)
      | Some inheritage_class \<Rightarrow>
          (case ops of
             [] \<Rightarrow> Inl IndexError
           | first # _ \<Rightarrow>
               if \<not> truthy (inputs first) then Inl (AssertionError ''must provide inputs'')
               else if \<not> truthy (outputs (last ops)) then Inl (AssertionError ''must provide outputs'')
               else verify_loop inheritage_class (inputs first) ops))"

section \<open>The random-choice combinator (\<open>fastestimator/op/numpyop/meta/one_of.py\<close>)\<close>

text \<open>
  A \<open>OneOf\<close> object: the fields \<open>super().__init__\<close> sets (it is a \<open>NumpyOp\<close>) and the
  children \<open>numpy_ops\<close>.
\<close>

record ('a, 's) OneOf = op_fields +
  numpy_ops :: "('a, 's) operation list"

text \<open>
  The loop of \<open>OneOf.__init__\<close> over \<open>numpy_ops[1:]\<close>: three \<open>assert\<close>s per child, in
  the order inputs, outputs, mode.
\<close>

fun OneOf_check :: "keys \<Rightarrow> keys \<Rightarrow> mode_decl \<Rightarrow> ('a, 's) operation list \<Rightarrow> error + unit" where
  "OneOf_check ins outs md [] = Inr ()"
| "OneOf_check ins outs md (op # ops) =
     (if ins \<noteq> inputs op
      then Inl (AssertionError ''All ops within a OneOf must share the same inputs'')
      else if outs \<noteq> outputs op
      then Inl (AssertionError ''All ops within a OneOf must share the same outputs'')
      else if md \<noteq> mode op
      then Inl (AssertionError ''All ops within a OneOf must share the same mode'')
      else OneOf_check ins outs md ops)"

text \<open>
  \<open>OneOf.__init__(*numpy_ops)\<close>: \<open>numpy_ops[0]\<close> of no children at all is an
  \<open>IndexError\<close>.
\<close>

definition OneOf_init :: "('a, 's) operation list \<Rightarrow> error + ('a, 's) OneOf" where
  "OneOf_init ops =
     (case ops of
        [] \<Rightarrow> Inl IndexError
      | first # others \<Rightarrow>
          (case OneOf_check (inputs first) (outputs first) (mode first) others of
             Inl e \<Rightarrow> Inl e
           | Inr _ \<Rightarrow>
               Inr \<lparr>inputs = inputs first, outputs = outputs first, mode = mode first,
                    cls = NumpyOpClass, numpy_ops = ops\<rparr>))"

text \<open>
  \<open>random.choice(seq)\<close>: the element at a position below \<open>len(seq)\<close> that the random
  source picks, here the draw \<open>r\<close> reduced to a position; an empty sequence is an
  \<open>IndexError\<close>.
\<close>

definition random_choice :: "nat \<Rightarrow> 'b list \<Rightarrow> error + 'b" where
  "random_choice r xs = (if xs = [] then Inl IndexError else Inr (xs ! (r mod length xs)))"

definition OneOf_forward :: "('a, 's) OneOf \<Rightarrow> nat \<Rightarrow> 'a data \<Rightarrow> 's \<Rightarrow> error + 'a data" where
  "OneOf_forward self r dat state =
     (case random_choice r (numpy_ops self) of
        Inl e \<Rightarrow> Inl e
      | Inr op \<Rightarrow> forward op dat state)"

section \<open>Binarize (\<open>fastestimator/op/numpyop/univariate/binarize.py\<close>)\<close>

text \<open>
  The contents of an array: an element, or a stack of arrays along the first axis.
\<close>

datatype 'v nd = Scalar 'v | Stack "'v nd list"


text \<open>
  A floating-point element: a finite value (the real number it denotes), an infinity, or
  NaN. \<open>fge\<close> and \<open>flt\<close> are the comparisons \<open>>=\<close> and \<open><\<close> of floating-point
  numbers: every comparison with NaN is false. A decimal such as 0.2 stands for the
  finite value nearest to it, which compares with 0.5 as the decimal does.
\<close>

datatype fp = Fin real | PosInf | NegInf | NaN

fun fge :: "fp \<Rightarrow> fp \<Rightarrow> bool" where
  "fge NaN y = False"
| "fge x NaN = False"
| "fge PosInf y = True"
| "fge x NegInf = True"
| "fge NegInf y = False"
| "fge x PosInf = False"
| "fge (Fin x) (Fin y) = (y \<le> x)"


text \<open>
  \<open>dat >= threshold\<close> compares element by element and gives an array of booleans;
  \<open>astype(np.float32)\<close> turns \<open>True\<close> into 1.0 and \<open>False\<close> into 0.0.
\<close>

definition ge_array :: "fp nd \<Rightarrow> fp \<Rightarrow> bool nd" where
  "ge_array dat threshold = map_nd (\<lambda>x. fge x threshold) dat"

definition astype_float32 :: "bool nd \<Rightarrow> fp nd" where
  "astype_float32 dat = map_nd (\<lambda>b. if b then Fin 1 else Fin 0) dat"

text \<open>
  \<open>Binarize.forward\<close>: the comprehension runs over \<open>data\<close>. Over a list of arrays it
  gives the list of their binarized arrays; over one bare array it runs over the array's
  first axis; \<open>None\<close> and an array without an axis cannot be iterated.
\<close>

fun Binarize_forward :: "fp \<Rightarrow> fp nd data \<Rightarrow> 's \<Rightarrow> error + fp nd data" where
  "Binarize_forward threshold (Many ds) state =
     Inr (Many (map (\<lambda>dat. astype_float32 (ge_array dat threshold)) ds))"
| "Binarize_forward threshold (One (Stack ds)) state =
     Inr (Many (map (\<lambda>dat. astype_float32 (ge_array dat threshold)) ds))"
| "Binarize_forward threshold (One (Scalar x)) state = Inl (TypeError ''iteration over a 0-d array'')"
| "Binarize_forward threshold NoData state = Inl (TypeError ''NoneType object is not iterable'')"

text \<open>
  \<open>Binarize.__init__\<close>: the fields of the base class, the threshold (kept in the
  \<open>forward\<close> method here), and both list flags set.
\<close>

definition Binarize :: "fp \<Rightarrow> keys \<Rightarrow> keys \<Rightarrow> mode_decl \<Rightarrow> (fp nd, 's) operation" where
  "Binarize threshold ins outs md =
     \<lparr>inputs = ins, outputs = outs, mode = md, cls = NumpyOpClass,
      forward = Binarize_forward threshold, in_list = True, out_list = True\<rparr>"

section \<open>The operation-chain executor\<close>

text \<open>
  A sample mapping by value: a Python dictionary from keys to arrays, in insertion
  order. \<open>AList.update\<close> is the dictionary's assignment: an existing key keeps its place,
  a new key goes to the end.
\<close>

type_synonym 'a sample = "(string \<times> 'a) list"

type_synonym state = "(string \<times> string option) list"

text \<open>
  Modelled from the spec: the values bound to a list of keys, in order; the first absent
  key is a lookup failure.
\<close>

fun lookup_all :: "'a sample \<Rightarrow> string list \<Rightarrow> error + 'a list" where
  "lookup_all smp [] = Inr []"
| "lookup_all smp (k # ks) =
     (case map_of smp k of
        None \<Rightarrow> Inl (KeyError k)
      | Some v \<Rightarrow> (case lookup_all smp ks of Inl e \<Rightarrow> Inl e | Inr vs \<Rightarrow> Inr (v # vs)))"

text \<open>
  Modelled from the spec: the gathering of an operation's input values by key.
  \<open>forward_numpyop\<close> and its helpers live in \<open>fastestimator.op.numpyop.numpyop\<close>, which
  \<open>op_dataset.py\<close> imports and the sources do not hold. An operation without inputs gets
  \<open>None\<close> and no key is looked up; one key gives the bound value, in a one-element list
  when the operation declares \<open>in_list\<close>; a key list gives the list of the bound values;
  an absent key is a lookup failure.
\<close>

definition get_inputs_by_op :: "('a, 's) operation \<Rightarrow> 'a sample \<Rightarrow> error + 'a data" where
  "get_inputs_by_op op smp =
     (if \<not> truthy (inputs op) then Inr NoData
      else (case inputs op of
              Key k \<Rightarrow> (case map_of smp k of
                           None \<Rightarrow> Inl (KeyError k)
                         | Some v \<Rightarrow> Inr (if in_list op then Many [v] else One v))
            | KeyList ks \<Rightarrow> (case lookup_all smp ks of Inl e \<Rightarrow> Inl e | Inr vs \<Rightarrow> Inr (Many vs))
            | NoKeys \<Rightarrow> Inr NoData))"

text \<open>
  Modelled from the spec: the write-back of an operation's result under its outputs
  (the helper is in the same absent module). Without outputs the result is discarded.
  One output key takes one array, or the only element of the result list of an operation
  that declares \<open>out_list\<close>; a list of output keys takes a result list of the same
  length, key by key. A result of another form does not fit the outputs.
\<close>

definition write_outputs_by_op :: "('a, 's) operation \<Rightarrow> 'a sample \<Rightarrow> 'a data \<Rightarrow> error + 'a sample" where
  "write_outputs_by_op op smp res =
     (if \<not> truthy (outputs op) then Inr smp
      else (case (outputs op, res) of
              (Key k, One v) \<Rightarrow> Inr (AList.update k v smp)
            | (Key k, Many [v]) \<Rightarrow>
                if out_list op then Inr (AList.update k v smp)
                else Inl (TypeError ''result does not fit outputs'')
            | (KeyList ks, Many vs) \<Rightarrow>
                if length ks = length vs then Inr (AList.updates ks vs smp)
                else Inl (TypeError ''result does not fit outputs'')
            | _ \<Rightarrow> Inl (TypeError ''result does not fit outputs'')))"

text \<open>
  Modelled from the spec: the loop of the executor over the operations that apply, in
  order: gather the inputs, call \<open>forward\<close> with the state, write the result back. The
  first failure ends the run.
\<close>

fun forward_loop :: "('a, 's) operation list \<Rightarrow> 'a sample \<Rightarrow> 's \<Rightarrow> error + 'a sample" where
  "forward_loop [] smp state = Inr smp"
| "forward_loop (op # ops) smp state =
     (case get_inputs_by_op op smp of
        Inl e \<Rightarrow> Inl e
      | Inr dat \<Rightarrow>
          (case forward op dat state of
             Inl e \<Rightarrow> Inl e
           | Inr res \<Rightarrow>
               (case write_outputs_by_op op smp res of
                  Inl e \<Rightarrow> Inl e
                | Inr smp' \<Rightarrow> forward_loop ops smp' state)))"

text \<open>
  Modelled from the spec: \<open>forward_numpyop(ops, sample_mapping, mode)\<close> (the absent
  module's entry point) applies the mode filter and runs the loop with the state
  \<open>{"mode": mode}\<close>.
\<close>

definition forward_numpyop :: "('a, state) operation list \<Rightarrow> 'a sample \<Rightarrow> string option \<Rightarrow> error + 'a sample" where
  "forward_numpyop ops smp current_mode =
     forward_loop (get_op_from_mode ops current_mode) smp [(''mode'', current_mode)]"

section \<open>The dataset wrapper (\<open>fastestimator/dataset/op_dataset.py\<close>)\<close>

subsection \<open>Objects\<close>

text \<open>
  Arrays and sample mappings are mutable objects with an identity, so they live in a
  store: an array object holds its contents, a mapping object binds keys to array
  objects (in insertion order). The addresses below \<open>n_arrays\<close> and \<open>n_dicts\<close> are
  the allocated ones. A Python list of mappings is the list of their addresses.
\<close>

record 'v store =
  arrays :: "nat \<Rightarrow> 'v nd"
  n_arrays :: nat
  dicts :: "nat \<Rightarrow> (string \<times> nat) list"
  n_dicts :: nat

definition new_array :: "'v store \<Rightarrow> 'v nd \<Rightarrow> 'v store \<times> nat" where
  "new_array s c = (s\<lparr>arrays := (arrays s)(n_arrays s := c), n_arrays := Suc (n_arrays s)\<rparr>, n_arrays s)"

definition new_dict :: "'v store \<Rightarrow> (string \<times> nat) list \<Rightarrow> 'v store \<times> nat" where
  "new_dict s es = (s\<lparr>dicts := (dicts s)(n_dicts s := es), n_dicts := Suc (n_dicts s)\<rparr>, n_dicts s)"

text \<open>
  The value of a mapping object: its keys with the contents of the arrays they are bound to.
\<close>

definition sample_of :: "'v store \<Rightarrow> nat \<Rightarrow> 'v nd sample" where
  "sample_of s d = map (\<lambda>(k, a). (k, arrays s a)) (dicts s d)"

text \<open>
  Every allocated mapping binds its keys to allocated arrays: no reference dangles.
\<close>

definition wf_store :: "'v store \<Rightarrow> bool" where
  "wf_store s = list_all (\<lambda>d. list_all (\<lambda>(k, a). a < n_arrays s) (dicts s d)) [0..<n_dicts s]"

subsection \<open>\<open>deepcopy\<close>\<close>

text \<open>
  \<open>copy.deepcopy\<close> of a mapping: a new array object with the same contents for every
  bound array, and a new mapping object binding the keys to them; of a list of mappings:
  the list of the copies. Python's \<open>deepcopy\<close> keeps one copy per object that occurs
  twice inside the copied structure; the model makes a copy per occurrence, and is exact
  for a retrieved item in which no mapping and no array occurs twice.
\<close>

fun copy_entries :: "'v store \<Rightarrow> (string \<times> nat) list \<Rightarrow> 'v store \<times> (string \<times> nat) list" where
  "copy_entries s [] = (s, [])"
| "copy_entries s ((k, a) # es) =
     (let (s1, a') = new_array s (arrays s a);
          (s2, es') = copy_entries s1 es
      in (s2, (k, a') # es'))"

definition deepcopy_dict :: "'v store \<Rightarrow> nat \<Rightarrow> 'v store \<times> nat" where
  "deepcopy_dict s d = (let (s1, es) = copy_entries s (dicts s d) in new_dict s1 es)"

fun deepcopy_list :: "'v store \<Rightarrow> nat list \<Rightarrow> 'v store \<times> nat list" where
  "deepcopy_list s [] = (s, [])"
| "deepcopy_list s (d # ds) =
     (let (s1, d') = deepcopy_dict s d;
          (s2, ds') = deepcopy_list s1 ds
      in (s2, d' # ds'))"

subsection \<open>The absent helpers, acting on objects\<close>

text \<open>
  \<open>forward_numpyop\<close> and \<open>pad_batch\<close> are imported from modules the sources do not
  hold, so \<open>__getitem__\<close> takes them as parameters: functions on the values of the
  mappings, which may fail. Neither returns anything: both change the mapping objects they
  are given in place.
\<close>

text \<open>
  Modelled from the spec: a sample mapping is mutated in place by the output-key writes,
  and keys not touched are passed through unchanged. \<open>assign\<close> is that in-place change
  of the mapping object \<open>d\<close> to a new value: the object gets the keys of the new value; a
  key whose array is unchanged stays bound to the same array object, every other key is
  bound to a new array. No array is written in place.
\<close>

fun bind_entries :: "'v store \<Rightarrow> (string \<times> nat) list \<Rightarrow> 'v nd sample \<Rightarrow> 'v store \<times> (string \<times> nat) list" where
  "bind_entries s old [] = (s, [])"
| "bind_entries s old ((k, v) # smp) =
     (let (s1, a) = (case map_of old k of
                       Some a0 \<Rightarrow> if arrays s a0 = v then (s, a0) else new_array s v
                     | None \<Rightarrow> new_array s v);
          (s2, es) = bind_entries s1 old smp
      in (s2, (k, a) # es))"

definition assign :: "'v store \<Rightarrow> nat \<Rightarrow> 'v nd sample \<Rightarrow> 'v store" where
  "assign s d smp = (let (s1, es) = bind_entries s (dicts s d) smp in s1\<lparr>dicts := (dicts s1)(d := es)\<rparr>)"

fun assign_all :: "'v store \<Rightarrow> nat list \<Rightarrow> 'v nd sample list \<Rightarrow> 'v store" where
  "assign_all s (d # ds) (smp # smps) = assign_all (assign s d smp) ds smps"
| "assign_all s ds smps = s"

text \<open>
  \<open>forward_numpyop(self.ops, item, self.mode)\<close> on the mapping object \<open>item\<close>.
\<close>

definition forward_at ::
  "('o \<Rightarrow> 'v nd sample \<Rightarrow> string option \<Rightarrow> error + 'v nd sample) \<Rightarrow> 'o \<Rightarrow> string option
     \<Rightarrow> 'v store \<Rightarrow> nat \<Rightarrow> error + 'v store" where
  "forward_at fwd opl md s item =
     (case fwd opl (sample_of s item) md of
        Inl e \<Rightarrow> Inl e
      | Inr smp \<Rightarrow> Inr (assign s item smp))"

text \<open>
  \<open>for item in items: forward_numpyop(self.ops, item, self.mode)\<close>.
\<close>

fun forward_each ::
  "('o \<Rightarrow> 'v nd sample \<Rightarrow> string option \<Rightarrow> error + 'v nd sample) \<Rightarrow> 'o \<Rightarrow> string option
     \<Rightarrow> 'v store \<Rightarrow> nat list \<Rightarrow> error + 'v store" where
  "forward_each fwd opl md s [] = Inr s"
| "forward_each fwd opl md s (item # items) =
     (case forward_at fwd opl md s item of
        Inl e \<Rightarrow> Inl e
      | Inr s1 \<Rightarrow> forward_each fwd opl md s1 items)"

text \<open>
  \<open>pad_batch(items, self.dataset.pad_value)\<close> on the mapping objects of \<open>items\<close>.
\<close>

definition pad_at ::
  "('v nd sample list \<Rightarrow> 'p \<Rightarrow> error + 'v nd sample list) \<Rightarrow> 'v store \<Rightarrow> nat list \<Rightarrow> 'p \<Rightarrow> error + 'v store" where
  "pad_at pad s items pv =
     (case pad (map (sample_of s) items) pv of
        Inl e \<Rightarrow> Inl e
      | Inr smps \<Rightarrow> Inr (assign_all s items smps))"

subsection \<open>\<open>OpDataset\<close>\<close>

text \<open>
  The wrapped dataset: an item-level dataset holds one mapping object per index, a
  \<open>BatchDataset\<close> a list of mapping objects per index and a pad value that may be
  \<open>None\<close>. \<open>self.dataset[index]\<close> hands out the stored objects themselves; an index out of
  range is the dataset's \<open>IndexError\<close>.
\<close>

datatype 'p dataset = Dataset "nat list" | BatchDataset "nat list list" "'p option"

record ('o, 'p) OpDataset =
  dataset :: "'p dataset"
  ds_ops :: 'o
  ds_mode :: "string option"

text \<open>
  \<open>[item[key] for item in items]\<close>: the contents of the arrays bound to \<open>key\<close>, a
  \<open>KeyError\<close> at the first mapping without the key.
\<close>

fun column :: "'v store \<Rightarrow> nat list \<Rightarrow> string \<Rightarrow> error + 'v nd list" where
  "column s [] key = Inr []"
| "column s (item # items) key =
     (case map_of (dicts s item) key of
        None \<Rightarrow> Inl (KeyError key)
      | Some a \<Rightarrow> (case column s items key of Inl e \<Rightarrow> Inl e | Inr vs \<Rightarrow> Inr (arrays s a # vs)))"

text \<open>
  \<open>np.array\<close> of a list of arrays is a new array, their stack along a new first axis,
  when all of them have one shape; numpy refuses a ragged list with a \<open>ValueError\<close>.
  An array is rectangular when, at every level, the stacked arrays have one shape.
\<close>

fun rectangular :: "'v nd \<Rightarrow> bool" where
  "rectangular (Scalar x) = True"
| "rectangular (Stack xs) =
     (list_all rectangular xs
      \<and> list_all (\<lambda>x. map_nd (\<lambda>v. ()) x = map_nd (\<lambda>v. ()) (hd xs)) xs)"

definition np_array :: "'v nd list \<Rightarrow> error + 'v nd" where
  "np_array vs = (if rectangular (Stack vs) then Inr (Stack vs) else Inl ValueError)"

text \<open>
  The dictionary comprehension \<open>{key: np.array([...]) for key in items[0]}\<close>, key by
  key.
\<close>

fun collate_keys :: "'v store \<Rightarrow> nat list \<Rightarrow> string list \<Rightarrow> error + ('v store \<times> (string \<times> nat) list)" where
  "collate_keys s items [] = Inr (s, [])"
| "collate_keys s items (key # keys) =
     (case column s items key of
        Inl e \<Rightarrow> Inl e
      | Inr vs \<Rightarrow>
          (case np_array vs of
             Inl e \<Rightarrow> Inl e
           | Inr arr \<Rightarrow>
               (let (s1, a) = new_array s arr
                in (case collate_keys s1 items keys of
                      Inl e \<Rightarrow> Inl e
                    | Inr (s2, es) \<Rightarrow> Inr (s2, (key, a) # es)))))"

definition collate :: "'v store \<Rightarrow> nat list \<Rightarrow> error + ('v store \<times> nat)" where
  "collate s items =
     (case items of
        [] \<Rightarrow> Inl IndexError
      | first # _ \<Rightarrow>
          (case collate_keys s items (map fst (dicts s first)) of
             Inl e \<Rightarrow> Inl e
           | Inr (s1, es) \<Rightarrow> Inr (new_dict s1 es)))"

text \<open>
  The batch branch of \<open>__getitem__\<close> up to the collation: the deep copy of the retrieved
  list, the operations on every mapping of the copy, and the padding when a pad value is
  configured.
\<close>

definition batch_items ::
  "('o \<Rightarrow> 'v nd sample \<Rightarrow> string option \<Rightarrow> error + 'v nd sample)
     \<Rightarrow> ('v nd sample list \<Rightarrow> 'p \<Rightarrow> error + 'v nd sample list)
     \<Rightarrow> 'o \<Rightarrow> string option \<Rightarrow> 'p option \<Rightarrow> 'v store \<Rightarrow> nat list \<Rightarrow> error + ('v store \<times> nat list)" where
  "batch_items fwd pad opl md pad_value s retrieved =
     (let (s1, items) = deepcopy_list s retrieved
      in (case forward_each fwd opl md s1 items of
            Inl e \<Rightarrow> Inl e
          | Inr s2 \<Rightarrow>
              (case pad_value of
                 None \<Rightarrow> Inr (s2, items)
               | Some pv \<Rightarrow>
                   (case pad_at pad s2 items pv of
                      Inl e \<Rightarrow> Inl e
                    | Inr s3 \<Rightarrow> Inr (s3, items)))))"

text \<open>
  \<open>OpDataset.__getitem__\<close>: the new store and the address of the returned mapping.
\<close>

definition OpDataset_getitem ::
  "('o \<Rightarrow> 'v nd sample \<Rightarrow> string option \<Rightarrow> error + 'v nd sample)
     \<Rightarrow> ('v nd sample list \<Rightarrow> 'p \<Rightarrow> error + 'v nd sample list)
     \<Rightarrow> ('o, 'p) OpDataset \<Rightarrow> 'v store \<Rightarrow> nat \<Rightarrow> error + ('v store \<times> nat)" where
  "OpDataset_getitem fwd pad self s index =
     (case dataset self of
        Dataset stored \<Rightarrow>
          if index < length stored then
            (let (s1, items) = deepcopy_dict s (stored ! index)
             in (case forward_at fwd (ds_ops self) (ds_mode self) s1 items of
                   Inl e \<Rightarrow> Inl e
                 | Inr s2 \<Rightarrow> Inr (s2, items)))
          else Inl IndexError
      | BatchDataset stored pad_value \<Rightarrow>
          if index < length stored then
            (case batch_items fwd pad (ds_ops self) (ds_mode self) pad_value s (stored ! index) of
               Inl e \<Rightarrow> Inl e
             | Inr (s3, items) \<Rightarrow> collate s3 items)
          else Inl IndexError)"

text \<open>
  The mapping objects the wrapped dataset stores, and that they are allocated.
\<close>

fun stored_dicts :: "'p dataset \<Rightarrow> nat list" where
  "stored_dicts (Dataset stored) = stored"
| "stored_dicts (BatchDataset stored pad_value) = concat stored"

definition stored_in :: "'p dataset \<Rightarrow> 'v store \<Rightarrow> bool" where
  "stored_in ds s = list_all (\<lambda>d. d < n_dicts s) (stored_dicts ds)"

subsection \<open>What a caller can do to a returned mapping\<close>

text \<open>
  The mutations of a mapping \<open>m\<close> a caller holds: \<open>m[k] = v\<close> with a new array,
  \<open>m.pop(k, None)\<close>, and a write into the array \<open>m[k]\<close> in place (nothing happens when
  the key is absent).
\<close>

datatype 'v mutation = SetItem string "'v nd" | PopItem string | WriteArray string "'v nd"

fun apply_mutation :: "nat \<Rightarrow> 'v mutation \<Rightarrow> 'v store \<Rightarrow> 'v store" where
  "apply_mutation m (SetItem k v) s =
     (let (s1, a) = new_array s v in s1\<lparr>dicts := (dicts s1)(m := AList.update k a (dicts s1 m))\<rparr>)"
| "apply_mutation m (PopItem k) s = s\<lparr>dicts := (dicts s)(m := AList.delete k (dicts s m))\<rparr>"
| "apply_mutation m (WriteArray k v) s =
     (case map_of (dicts s m) k of
        None \<Rightarrow> s
      | Some a \<Rightarrow> s\<lparr>arrays := (arrays s)(a := v)\<rparr>)"

definition mutate :: "nat \<Rightarrow> 'v mutation list \<Rightarrow> 'v store \<Rightarrow> 'v store" where
  "mutate m muts s = fold (apply_mutation m) muts s"

text \<open>
  The collation by value, in the specification's words: one mapping from each key of the
  first sample to the stack of that key's values in every sample, in list order.
\<close>

definition stacked :: "'v nd sample list \<Rightarrow> 'v nd sample" where
  "stacked smps = map (\<lambda>k. (k, Stack (map (\<lambda>smp. the (map_of smp k)) smps))) (map fst (hd smps))"

text \<open>
  When a list of samples can be collated: it is not empty, every sample has every key of
  the first one, and for every such key the values of the samples stack to a rectangular
  array.
\<close>

definition collatable :: "'v nd sample list \<Rightarrow> bool" where
  "collatable smps \<longleftrightarrow>
     smps \<noteq> []
     \<and> (\<forall>smp\<in>set smps. fst ` set (hd smps) \<subseteq> fst ` set smp)
     \<and> (\<forall>k\<in>fst ` set (hd smps). rectangular (Stack (map (\<lambda>smp. the (map_of smp k)) smps)))"

subsection \<open>Separation of stores, and the call by value\<close>

text \<open>
  The vocabulary of the proofs about \<open>OpDataset.__getitem__\<close>: how a later store relates
  to an earlier one, and what the call computes from the values of the stored objects.
\<close>

text \<open>
  Only new arrays: every mapping object and every allocated array is as before.
\<close>

definition grows :: "'v store \<Rightarrow> 'v store \<Rightarrow> bool" where
  "grows s s' \<longleftrightarrow> dicts s' = dicts s \<and> n_dicts s' = n_dicts s \<and> n_arrays s \<le> n_arrays s'
     \<and> (\<forall>a<n_arrays s. arrays s' a = arrays s a)"

text \<open>
  The store \<open>s\<close> extends \<open>s0\<close>: every object allocated in \<open>s0\<close> is unchanged in \<open>s\<close>.
\<close>

definition extends :: "'v store \<Rightarrow> 'v store \<Rightarrow> bool" where
  "extends s0 s \<longleftrightarrow> n_arrays s0 \<le> n_arrays s \<and> n_dicts s0 \<le> n_dicts s
     \<and> (\<forall>a<n_arrays s0. arrays s a = arrays s0 a) \<and> (\<forall>d<n_dicts s0. dicts s d = dicts s0 d)"

text \<open>
  The mapping object \<open>d\<close> and the arrays it binds were allocated after \<open>s0\<close>.
\<close>

definition owned :: "'v store \<Rightarrow> 'v store \<Rightarrow> nat \<Rightarrow> bool" where
  "owned s0 s d \<longleftrightarrow> n_dicts s0 \<le> d \<and> d < n_dicts s
     \<and> (\<forall>(k, a)\<in>set (dicts s d). n_arrays s0 \<le> a)"

text \<open>
  From \<open>s\<close> to \<open>s'\<close> only the mapping objects in \<open>D\<close> were changed in place: they keep
  bindings they had or bind new arrays; nothing else changed but for new arrays.
\<close>

definition touch :: "nat set \<Rightarrow> 'v store \<Rightarrow> 'v store \<Rightarrow> bool" where
  "touch D s s' \<longleftrightarrow> n_dicts s' = n_dicts s \<and> n_arrays s \<le> n_arrays s'
     \<and> (\<forall>a<n_arrays s. arrays s' a = arrays s a)
     \<and> (\<forall>d. d \<notin> D \<longrightarrow> dicts s' d = dicts s d)
     \<and> (\<forall>d\<in>D. \<forall>(k, a)\<in>set (dicts s' d). (k, a) \<in> set (dicts s d) \<or> (n_arrays s \<le> a \<and> a < n_arrays s'))"

text \<open>
  The separation the deep copy establishes: the store is well formed, it extends the
  store \<open>s0\<close> of before the call, and the mapping objects in \<open>D\<close> with their arrays are
  new with respect to \<open>s0\<close>.
\<close>

definition separated :: "'v store \<Rightarrow> 'v store \<Rightarrow> nat set \<Rightarrow> bool" where
  "separated s0 s D \<longleftrightarrow> wf_store s \<and> extends s0 s \<and> (\<forall>d\<in>D. owned s0 s d)"

text \<open>
  The operations on a list of sample values, in order, ending at the first failure.
\<close>

fun forward_values ::
  "('o \<Rightarrow> 'a sample \<Rightarrow> string option \<Rightarrow> error + 'a sample) \<Rightarrow> 'o \<Rightarrow> string option
     \<Rightarrow> 'a sample list \<Rightarrow> error + 'a sample list" where
  "forward_values fwd opl md [] = Inr []"
| "forward_values fwd opl md (v # vs) =
     (case fwd opl v md of
        Inl e \<Rightarrow> Inl e
      | Inr v' \<Rightarrow> (case forward_values fwd opl md vs of Inl e \<Rightarrow> Inl e | Inr vs' \<Rightarrow> Inr (v' # vs')))"

text \<open>
  The values of the mapping objects of a list after new values were written to them
  position by position.
\<close>

definition written_back :: "'b list \<Rightarrow> 'b list \<Rightarrow> 'b list" where
  "written_back olds news = take (length olds) news @ drop (length news) olds"

text \<open>
  The values bound to a key in every sample of a list, by value.
\<close>

fun column_value :: "'a sample list \<Rightarrow> string \<Rightarrow> error + 'a list" where
  "column_value [] key = Inr []"
| "column_value (smp # smps) key =
     (case map_of smp key of
        None \<Rightarrow> Inl (KeyError key)
      | Some v \<Rightarrow> (case column_value smps key of Inl e \<Rightarrow> Inl e | Inr vs \<Rightarrow> Inr (v # vs)))"

text \<open>
  The comprehension of the collation, by value.
\<close>

fun collate_columns :: "'v nd sample list \<Rightarrow> string list \<Rightarrow> error + 'v nd sample" where
  "collate_columns smps [] = Inr []"
| "collate_columns smps (key # keys) =
     (case column_value smps key of
        Inl e \<Rightarrow> Inl e
      | Inr vs \<Rightarrow>
          (case np_array vs of
             Inl e \<Rightarrow> Inl e
           | Inr arr \<Rightarrow>
               (case collate_columns smps keys of Inl e \<Rightarrow> Inl e | Inr r \<Rightarrow> Inr ((key, arr) # r))))"

text \<open>
  The collation of a list of sample values, by value.
\<close>

definition collate_value :: "'v nd sample list \<Rightarrow> error + 'v nd sample" where
  "collate_value smps =
     (case smps of [] \<Rightarrow> Inl IndexError | first # _ \<Rightarrow> collate_columns smps (map fst first))"

text \<open>
  The batch branch up to the collation, by value.
\<close>

definition batch_values ::
  "('o \<Rightarrow> 'a sample \<Rightarrow> string option \<Rightarrow> error + 'a sample)
     \<Rightarrow> ('a sample list \<Rightarrow> 'p \<Rightarrow> error + 'a sample list)
     \<Rightarrow> 'o \<Rightarrow> string option \<Rightarrow> 'p option \<Rightarrow> 'a sample list \<Rightarrow> error + 'a sample list" where
  "batch_values fwd pad opl md pad_value vals =
     (case forward_values fwd opl md vals of
        Inl e \<Rightarrow> Inl e
      | Inr vs \<Rightarrow>
          (case pad_value of
             None \<Rightarrow> Inr vs
           | Some pv \<Rightarrow> (case pad vs pv of Inl e \<Rightarrow> Inl e | Inr ps \<Rightarrow> Inr (written_back vs ps))))"

text \<open>
  The value of the mapping \<open>__getitem__\<close> returns, as a function of the values of the
  stored mapping objects.
\<close>

definition getitem_value ::
  "('o \<Rightarrow> 'v nd sample \<Rightarrow> string option \<Rightarrow> error + 'v nd sample)
     \<Rightarrow> ('v nd sample list \<Rightarrow> 'p \<Rightarrow> error + 'v nd sample list)
     \<Rightarrow> ('o, 'p) OpDataset \<Rightarrow> (nat \<Rightarrow> 'v nd sample) \<Rightarrow> nat \<Rightarrow> error + 'v nd sample" where
  "getitem_value fwd pad self value_of index =
     (case dataset self of
        Dataset stored \<Rightarrow>
          if index < length stored
          then fwd (ds_ops self) (value_of (stored ! index)) (ds_mode self)
          else Inl IndexError
      | BatchDataset stored pad_value \<Rightarrow>
          if index < length stored then
            (case batch_values fwd pad (ds_ops self) (ds_mode self) pad_value (map value_of (stored ! index)) of
               Inl e \<Rightarrow> Inl e
             | Inr vs \<Rightarrow> collate_value vs)
          else Inl IndexError)"

text \<open>
  A store with four arrays and four mapping objects \<open>{"x": [0.2, 0.7]}\<close>,
  \<open>{"x": [0.75, 0.25]}\<close>, \<open>{"y": 5}\<close> and \<open>{"x": [1, 2, 3]}\<close>, an operation list and a
  padding that leaves the batch as it is, for the concrete instances below.
\<close>

definition example_store :: "fp store" where
  "example_store =
     \<lparr>arrays = (\<lambda>a. Scalar (Fin 0))
                 (0 := Stack [Scalar (Fin (2/10)), Scalar (Fin (7/10))],
                  1 := Stack [Scalar (Fin (3/4)), Scalar (Fin (1/4))],
                  2 := Scalar (Fin 5),
                  3 := Stack [Scalar (Fin 1), Scalar (Fin 2), Scalar (Fin 3)]),
      n_arrays = 4,
      dicts = (\<lambda>d. [])(0 := [(''x'', 0)], 1 := [(''x'', 1)], 2 := [(''y'', 2)], 3 := [(''x'', 3)]),
      n_dicts = 4\<rparr>"

definition example_ops :: "(fp nd, state) operation list" where
  "example_ops = [Binarize (Fin (1/2)) (Key ''x'') (Key ''x'') ModeNone]"

definition no_pad :: "fp nd sample list \<Rightarrow> real \<Rightarrow> error + fp nd sample list" where
  "no_pad smps pv = Inr smps"

section \<open>Properties of the operation utilities\<close>

subsection \<open>The mode filter\<close>

lemma get_op_from_mode_filter: "get_op_from_mode opl m = filter (selected m) opl"
  by (induction opl) simp_all

text \<open>
  Claim C4. For every operation list and every target mode, filtering a second time
  changes nothing, and the result is a subsequence of the list: the selected operations
  in their original order.
\<close>

theorem get_op_from_mode_idempotent:
  "get_op_from_mode (get_op_from_mode opl m) m = get_op_from_mode opl m
   \<and> subseq (get_op_from_mode opl m) opl"
  by (simp add: get_op_from_mode_filter)

theorem get_op_from_mode_idempotent_witness:
  "get_op_from_mode
     (get_op_from_mode
        [NumpyOp (Key ''x'') (Key ''x'') (ModeStr ''train'') :: (nat, unit) operation,
         NumpyOp (Key ''x'') (Key ''x'') (ModeStr ''eval''),
         NumpyOp (Key ''x'') (Key ''y'') ModeNone] (Some ''train'')) (Some ''train'')
   = [NumpyOp (Key ''x'') (Key ''x'') (ModeStr ''train''), NumpyOp (Key ''x'') (Key ''y'') ModeNone]
   \<and> subseq
        (get_op_from_mode
           [NumpyOp (Key ''x'') (Key ''x'') (ModeStr ''train'') :: (nat, unit) operation,
            NumpyOp (Key ''x'') (Key ''x'') (ModeStr ''eval''),
            NumpyOp (Key ''x'') (Key ''y'') ModeNone] (Some ''train''))
        [NumpyOp (Key ''x'') (Key ''x'') (ModeStr ''train''),
         NumpyOp (Key ''x'') (Key ''x'') (ModeStr ''eval''),
         NumpyOp (Key ''x'') (Key ''y'') ModeNone]"
  using get_op_from_mode_idempotent
    [of "[NumpyOp (Key ''x'') (Key ''x'') (ModeStr ''train'') :: (nat, unit) operation,
          NumpyOp (Key ''x'') (Key ''x'') (ModeStr ''eval''),
          NumpyOp (Key ''x'') (Key ''y'') ModeNone]" "Some ''train''"]
  by (simp add: selected_def NumpyOp_def)

text \<open>
  Claim C9. An operation whose declared mode is a list with \<open>None\<close> among its elements
  is selected for every target mode.
\<close>

theorem get_op_from_mode_none_in_list:
  "op \<in> set opl \<Longrightarrow> mode op = ModeList ms \<Longrightarrow> None \<in> set ms
   \<Longrightarrow> op \<in> set (get_op_from_mode opl m)"
  by (force simp add: get_op_from_mode_filter selected_def)

theorem get_op_from_mode_none_in_list_witness:
  "(NumpyOp (Key ''x'') (Key ''x'') (ModeList [Some ''train'', None]) :: (nat, unit) operation)
     \<in> set (get_op_from_mode
               [NumpyOp (Key ''a'') (Key ''b'') (ModeStr ''train''),
                NumpyOp (Key ''x'') (Key ''x'') (ModeList [Some ''train'', None])]
               (Some ''eval''))"
  using get_op_from_mode_none_in_list
    [of "NumpyOp (Key ''x'') (Key ''x'') (ModeList [Some ''train'', None]) :: (nat, unit) operation"
        "[NumpyOp (Key ''a'') (Key ''b'') (ModeStr ''train''),
          NumpyOp (Key ''x'') (Key ''x'') (ModeList [Some ''train'', None])]"
        "[Some ''train'', None]" "Some ''eval''"]
  by (simp add: NumpyOp_def)

subsection \<open>Flattening\<close>

lemma fold_max_le: "fold max xs (a::nat) \<le> n \<longleftrightarrow> a \<le> n \<and> (\<forall>x\<in>set xs. x \<le> n)"
  by (induction xs arbitrary: a) auto

lemma as_list_leaves: "depth x \<le> 1 \<Longrightarrow> as_list x = map Op (leaves x)"
proof (cases x)
  case (Op a)
  then show ?thesis by simp
next
  case (Nest xs)
  assume "depth x \<le> 1"
  with Nest have "fold max (map depth xs) 0 \<le> 0" by simp
  hence "\<forall>y\<in>set xs. depth y = 0" by (simp only: fold_max_le) simp
  hence "\<forall>y\<in>set xs. \<exists>a. y = Op a" by (metis depth.elims nat.simps(3))
  hence "xs = map Op (concat (map leaves xs))" by (induction xs) auto
  with Nest show ?thesis by simp
qed

text \<open>
  Claim C2, as stated, fails: \<open>flatten_operation\<close> joins one level of lists only. On the
  list \<open>[[a, [b]]]\<close> it returns \<open>[a, [b]]\<close>, which still holds a list, not the leaf
  order \<open>[a, b]\<close>.
\<close>

theorem flatten_operation_deep_counterexample:
  "flatten_operation (Nest [Nest [Op (1::nat), Nest [Op 2]]]) = [Op 1, Nest [Op 2]]
   \<and> flatten_operation (Nest [Nest [Op (1::nat), Nest [Op 2]]])
       \<noteq> map Op (leaves (Nest [Nest [Op 1, Nest [Op 2]]]))"
  by (simp add: flatten_operation_def)

text \<open>
  Claim C2, amended. For a single operation, a list of operations, or a list whose
  elements are operations or lists of operations (nesting depth at most 2),
  \<open>flatten_operation\<close> returns the leaves in depth-first left-to-right order.
\<close>

theorem flatten_operation_leaves:
  "depth L \<le> 2 \<Longrightarrow> flatten_operation L = map Op (leaves L)"
proof (cases L)
  case (Op a)
  then show ?thesis by (simp add: flatten_operation_def)
next
  case (Nest xs)
  assume "depth L \<le> 2"
  with Nest have "fold max (map depth xs) 0 \<le> 1" by simp
  hence "\<forall>y\<in>set xs. depth y \<le> 1" by (simp only: fold_max_le) simp
  hence "concat (map as_list xs) = map Op (concat (map leaves xs))"
    by (induction xs) (simp_all add: as_list_leaves)
  with Nest show ?thesis by (simp add: flatten_operation_def)
qed

theorem flatten_operation_leaves_witness:
  "depth (Nest [Op (1::nat), Nest [Op 2, Op 3], Nest [], Op 4]) \<le> 2
   \<and> flatten_operation (Nest [Op (1::nat), Nest [Op 2, Op 3], Nest [], Op 4])
       = [Op 1, Op 2, Op 3, Op 4]"
proof -
  have d: "depth (Nest [Op (1::nat), Nest [Op 2, Op 3], Nest [], Op 4]) \<le> 2" by simp
  show ?thesis using d flatten_operation_leaves [OF d] by simp
qed

subsection \<open>The graph-contract verifier\<close>

text \<open>
  Claim C7. A list whose first operation has empty inputs is rejected, a list whose last
  operation has empty outputs is rejected (for a known class name with the
  \<open>AssertionError\<close> of the boundary check), and a list that passes has a first operation
  with non-empty inputs and a last operation with non-empty outputs.
\<close>

theorem verify_ops_boundary:
  "(opl \<noteq> [] \<and> \<not> truthy (inputs (hd opl)) \<longrightarrow>
      (\<exists>e. verify_ops opl class_name = Inl e)
      \<and> (inheritage class_name \<noteq> None \<longrightarrow>
           verify_ops opl class_name = Inl (AssertionError ''must provide inputs'')))
   \<and> (opl \<noteq> [] \<and> \<not> truthy (outputs (last opl)) \<longrightarrow>
      (\<exists>e. verify_ops opl class_name = Inl e)
      \<and> (inheritage class_name \<noteq> None \<and> truthy (inputs (hd opl)) \<longrightarrow>
           verify_ops opl class_name = Inl (AssertionError ''must provide outputs'')))
   \<and> (verify_ops opl class_name = Inr () \<longrightarrow>
      opl \<noteq> [] \<and> truthy (inputs (hd opl)) \<and> truthy (outputs (last opl)))"
  by (cases opl; cases "inheritage class_name") (simp_all add: verify_ops_def)

theorem verify_ops_boundary_witness:
  "verify_ops [NumpyOp NoKeys (Key ''y'') ModeNone :: (nat, unit) operation] ''RecordWriter''
     = Inl (AssertionError ''must provide inputs'')
   \<and> verify_ops [NumpyOp (Key ''x'') (Key ''y'') ModeNone :: (nat, unit) operation,
                 NumpyOp (Key ''y'') (KeyList []) ModeNone] ''RecordWriter''
     = Inl (AssertionError ''must provide outputs'')
   \<and> verify_ops [NumpyOp (Key ''x'') (Key ''y'') ModeNone :: (nat, unit) operation,
                 NumpyOp (Key ''y'') (Key ''z'') ModeNone] ''RecordWriter'' = Inr ()
   \<and> truthy (inputs (hd [NumpyOp (Key ''x'') (Key ''y'') ModeNone :: (nat, unit) operation,
                          NumpyOp (Key ''y'') (Key ''z'') ModeNone]))
   \<and> truthy (outputs (last [NumpyOp (Key ''x'') (Key ''y'') ModeNone :: (nat, unit) operation,
                             NumpyOp (Key ''y'') (Key ''z'') ModeNone]))"
proof -
  have ok: "verify_ops [NumpyOp (Key ''x'') (Key ''y'') ModeNone :: (nat, unit) operation,
                        NumpyOp (Key ''y'') (Key ''z'') ModeNone] ''RecordWriter'' = Inr ()"
    by (simp add: verify_ops_def inheritage_def isinstance_def NumpyOp_def)
  show ?thesis
    using ok
      verify_ops_boundary [of "[NumpyOp NoKeys (Key ''y'') ModeNone :: (nat, unit) operation]" "''RecordWriter''"]
      verify_ops_boundary [of "[NumpyOp (Key ''x'') (Key ''y'') ModeNone :: (nat, unit) operation,
                                NumpyOp (Key ''y'') (KeyList []) ModeNone]" "''RecordWriter''"]
      verify_ops_boundary [of "[NumpyOp (Key ''x'') (Key ''y'') ModeNone :: (nat, unit) operation,
                                NumpyOp (Key ''y'') (Key ''z'') ModeNone]" "''RecordWriter''"]
    by (simp add: inheritage_def NumpyOp_def)
qed

text \<open>
  Claim C1. The claim asks that a list is rejected when some operation has empty outputs
  and the next one declares other inputs. The loop compares the next inputs with the
  inputs of the first operation of the list, not with those of the current one. The list
  of three operations with inputs x, y, x and outputs y, none, z passes: the third
  operation's inputs differ from the second's, the second has no outputs, and the
  second's result is lost.
\<close>

theorem verify_ops_accepts_lost_result:
  "verify_ops [NumpyOp (Key ''x'') (Key ''y'') ModeNone :: (nat, unit) operation,
               NumpyOp (Key ''y'') NoKeys ModeNone,
               NumpyOp (Key ''x'') (Key ''z'') ModeNone] ''RecordWriter'' = Inr ()
   \<and> inputs (NumpyOp (Key ''x'') (Key ''z'') ModeNone :: (nat, unit) operation)
       \<noteq> inputs (NumpyOp (Key ''y'') NoKeys ModeNone :: (nat, unit) operation)
   \<and> \<not> truthy (outputs (NumpyOp (Key ''y'') NoKeys ModeNone :: (nat, unit) operation))"
  by (simp add: verify_ops_def inheritage_def isinstance_def NumpyOp_def)

section \<open>Properties of \<open>OneOf\<close>\<close>

lemma OneOf_check_ok:
  "OneOf_check ins outs md opl = Inr ()
   \<longleftrightarrow> (\<forall>c\<in>set opl. inputs c = ins \<and> outputs c = outs \<and> mode c = md)"
  by (induction opl) auto

lemma OneOf_check_error:
  "OneOf_check ins outs md opl = Inl e \<Longrightarrow> \<exists>msg. e = AssertionError msg"
  by (induction opl) (auto split: if_splits)

text \<open>
  Claim C5. Constructing a \<open>OneOf\<close> from a first child and further children fails with
  an \<open>AssertionError\<close> when some child's inputs, outputs or mode differ from the first
  child's; when all agree it succeeds, and the object has the first child's inputs,
  outputs and mode and holds the children.
\<close>

theorem OneOf_init_contract:
  "((\<exists>c\<in>set others. inputs c \<noteq> inputs first \<or> outputs c \<noteq> outputs first \<or> mode c \<noteq> mode first)
      \<longrightarrow> (\<exists>msg. OneOf_init (first # others) = Inl (AssertionError msg)))
   \<and> ((\<forall>c\<in>set others. inputs c = inputs first \<and> outputs c = outputs first \<and> mode c = mode first)
      \<longrightarrow> OneOf_init (first # others) =
            Inr \<lparr>inputs = inputs first, outputs = outputs first, mode = mode first,
                 cls = NumpyOpClass, numpy_ops = first # others\<rparr>)"
proof (cases "OneOf_check (inputs first) (outputs first) (mode first) others")
  case (Inl e)
  then obtain msg where "e = AssertionError msg"
    using OneOf_check_error by blast
  moreover from Inl
  have "\<not> (\<forall>c\<in>set others. inputs c = inputs first \<and> outputs c = outputs first \<and> mode c = mode first)"
    using OneOf_check_ok [of "inputs first" "outputs first" "mode first" others] by auto
  ultimately show ?thesis
    using Inl by (auto simp: OneOf_init_def)
next
  case (Inr u)
  hence "\<forall>c\<in>set others. inputs c = inputs first \<and> outputs c = outputs first \<and> mode c = mode first"
    using OneOf_check_ok [of "inputs first" "outputs first" "mode first" others] by simp
  with Inr show ?thesis
    by (auto simp: OneOf_init_def)
qed

theorem OneOf_init_contract_witness:
  "OneOf_init [NumpyOp (Key ''x'') (Key ''x'') ModeNone :: (nat, unit) operation,
               NumpyOp (Key ''x'') (Key ''y'') ModeNone]
     = Inl (AssertionError ''All ops within a OneOf must share the same outputs'')
   \<and> OneOf_init [NumpyOp (Key ''x'') (Key ''x'') ModeNone :: (nat, unit) operation,
                 TensorOp (Key ''x'') (Key ''x'') ModeNone]
     = Inr \<lparr>inputs = Key ''x'', outputs = Key ''x'', mode = ModeNone, cls = NumpyOpClass,
            numpy_ops = [NumpyOp (Key ''x'') (Key ''x'') ModeNone,
                         TensorOp (Key ''x'') (Key ''x'') ModeNone]\<rparr>"
  using
    OneOf_init_contract [of "[NumpyOp (Key ''x'') (Key ''y'') ModeNone :: (nat, unit) operation]"
                            "NumpyOp (Key ''x'') (Key ''x'') ModeNone"]
    OneOf_init_contract [of "[TensorOp (Key ''x'') (Key ''x'') ModeNone :: (nat, unit) operation]"
                            "NumpyOp (Key ''x'') (Key ''x'') ModeNone"]
  by (simp add: OneOf_init_def NumpyOp_def TensorOp_def)

text \<open>
  Claim C10. Constructing a \<open>OneOf\<close> from exactly one child succeeds, and whatever the
  random source draws, \<open>forward\<close> of the object returns what the child's \<open>forward\<close>
  returns on the same data and state.
\<close>

theorem OneOf_singleton:
  "OneOf_init [c] =
     Inr \<lparr>inputs = inputs c, outputs = outputs c, mode = mode c, cls = NumpyOpClass, numpy_ops = [c]\<rparr>
   \<and> OneOf_forward
        \<lparr>inputs = inputs c, outputs = outputs c, mode = mode c, cls = NumpyOpClass, numpy_ops = [c]\<rparr>
        r dat state
     = forward c dat state"
  by (simp add: OneOf_init_def OneOf_forward_def random_choice_def)

theorem OneOf_singleton_witness:
  "OneOf_init [Binarize (Fin (1/2)) (Key ''x'') (Key ''y'') ModeNone :: (fp nd, unit) operation]
     = Inr \<lparr>inputs = Key ''x'', outputs = Key ''y'', mode = ModeNone, cls = NumpyOpClass,
            numpy_ops = [Binarize (Fin (1/2)) (Key ''x'') (Key ''y'') ModeNone]\<rparr>
   \<and> OneOf_forward
        \<lparr>inputs = Key ''x'', outputs = Key ''y'', mode = ModeNone, cls = NumpyOpClass,
         numpy_ops = [Binarize (Fin (1/2)) (Key ''x'') (Key ''y'') ModeNone :: (fp nd, unit) operation]\<rparr>
        7 (Many [Stack [Scalar (Fin (1/5)), Scalar (Fin (7/10))]]) ()
     = Inr (Many [Stack [Scalar (Fin 0), Scalar (Fin 1)]])"
  using OneOf_singleton
    [of "Binarize (Fin (1/2)) (Key ''x'') (Key ''y'') ModeNone :: (fp nd, unit) operation"
        7 "Many [Stack [Scalar (Fin (1/5)), Scalar (Fin (7/10))]]" "()"]
  by (simp add: Binarize_def astype_float32_def ge_array_def)

section \<open>Properties of \<open>Binarize\<close>\<close>








section \<open>Properties of the dataset wrapper\<close>

lemma wf_store_iff: "wf_store s \<longleftrightarrow> (\<forall>d<n_dicts s. \<forall>(k, a)\<in>set (dicts s d). a < n_arrays s)"
  by (auto simp: wf_store_def list_all_iff)

lemma grows_refl: "grows s s" by (simp add: grows_def)

lemma grows_trans: "grows s s1 \<Longrightarrow> grows s1 s2 \<Longrightarrow> grows s s2" by (auto simp: grows_def)

lemma extends_refl: "extends s s" by (simp add: extends_def)

lemma extends_grows: "extends s0 s \<Longrightarrow> grows s s' \<Longrightarrow> extends s0 s'" by (auto simp: extends_def grows_def)

lemma extends_trans: "extends s0 s \<Longrightarrow> extends s s' \<Longrightarrow> extends s0 s'" by (auto simp: extends_def)

lemma grows_new_array: "grows s (fst (new_array s c))"
  by (simp add: grows_def new_array_def)

lemma new_array_facts:
  "new_array s c = (s', a) \<Longrightarrow> grows s s' \<and> a = n_arrays s \<and> n_arrays s' = Suc (n_arrays s) \<and> arrays s' a = c"
  by (auto simp: grows_def new_array_def)

lemma grows_wf: "wf_store s \<Longrightarrow> grows s s' \<Longrightarrow> wf_store s'"
  by (fastforce simp: wf_store_iff grows_def)

lemma grows_sample_of:
  "grows s s' \<Longrightarrow> \<forall>(k, a)\<in>set (dicts s d). a < n_arrays s \<Longrightarrow> sample_of s' d = sample_of s d"
  by (auto simp: sample_of_def grows_def)

lemma copy_entries_facts:
  "copy_entries s es = (s', es') \<Longrightarrow>
     grows s s' \<and> map fst es' = map fst es
     \<and> (\<forall>(k, a)\<in>set es'. n_arrays s \<le> a \<and> a < n_arrays s')
     \<and> ((\<forall>(k, a)\<in>set es. a < n_arrays s) \<longrightarrow>
          map (\<lambda>(k, a). (k, arrays s' a)) es' = map (\<lambda>(k, a). (k, arrays s a)) es)"
proof (induction es arbitrary: s s' es')
  case Nil
  then show ?case by (simp add: grows_refl)
next
  case (Cons e es)
  obtain k a where e: "e = (k, a)" by (cases e)
  obtain s1 a' where na: "new_array s (arrays s a) = (s1, a')" by (cases "new_array s (arrays s a)")
  obtain s2 es2 where ce: "copy_entries s1 es = (s2, es2)" by (cases "copy_entries s1 es")
  from Cons.prems e na ce have res: "s' = s2" "es' = (k, a') # es2" by simp_all
  note f1 = new_array_facts[OF na]
  note f2 = Cons.IH[OF ce]
  have g: "grows s s2" using f1 f2 grows_trans by blast
  have fresh: "\<forall>(k, a)\<in>set es2. n_arrays s \<le> a \<and> a < n_arrays s2"
    using f1 f2 by fastforce
  have a'2: "a' < n_arrays s2 \<and> arrays s2 a' = arrays s a"
    using f1 f2 by (auto simp: grows_def)
  have val: "(\<forall>(k, a)\<in>set (e # es). a < n_arrays s) \<longrightarrow>
          map (\<lambda>(k, a). (k, arrays s2 a)) ((k, a') # es2) = map (\<lambda>(k, a). (k, arrays s a)) (e # es)"
  proof
    assume al: "\<forall>(k, a)\<in>set (e # es). a < n_arrays s"
    hence "\<forall>(k, a)\<in>set es. a < n_arrays s1" using f1 by fastforce
    with f2 have "map (\<lambda>(k, a). (k, arrays s2 a)) es2 = map (\<lambda>(k, a). (k, arrays s1 a)) es" by blast
    also have "\<dots> = map (\<lambda>(k, a). (k, arrays s a)) es"
      using al f1 by (auto simp: grows_def)
    finally show "map (\<lambda>(k, a). (k, arrays s2 a)) ((k, a') # es2) = map (\<lambda>(k, a). (k, arrays s a)) (e # es)"
      using a'2 e by simp
  qed
  show ?case using g fresh a'2 val f1 f2 res e by auto
qed

lemma touch_refl: "touch D s s" by (auto simp: touch_def)

lemma touch_mono: "touch D s s' \<Longrightarrow> D \<subseteq> D' \<Longrightarrow> touch D' s s'"
  unfolding touch_def by (auto; metis)

lemma touch_trans:
  assumes "touch D s s1" "touch D s1 s2"
  shows "touch D s s2"
  unfolding touch_def
proof (intro conjI allI impI ballI)
  show "n_dicts s2 = n_dicts s" using assms by (simp add: touch_def)
  show "n_arrays s \<le> n_arrays s2" using assms by (auto simp: touch_def)
  show "\<And>a. a < n_arrays s \<Longrightarrow> arrays s2 a = arrays s a" using assms by (auto simp: touch_def)
  show "\<And>d. d \<notin> D \<Longrightarrow> dicts s2 d = dicts s d" using assms by (auto simp: touch_def)
next
  fix d e assume d: "d \<in> D" and e: "e \<in> set (dicts s2 d)"
  obtain k a where ka: "e = (k, a)" by (cases e)
  from assms(2) d e ka have "(k, a) \<in> set (dicts s1 d) \<or> (n_arrays s1 \<le> a \<and> a < n_arrays s2)"
    by (auto simp: touch_def)
  moreover have "(k, a) \<in> set (dicts s1 d) \<Longrightarrow> (k, a) \<in> set (dicts s d) \<or> (n_arrays s \<le> a \<and> a < n_arrays s1)"
    using assms(1) d by (auto simp: touch_def)
  moreover have "n_arrays s \<le> n_arrays s1" "n_arrays s1 \<le> n_arrays s2"
    using assms by (auto simp: touch_def)
  ultimately show "case e of (k, a) \<Rightarrow> (k, a) \<in> set (dicts s d) \<or> (n_arrays s \<le> a \<and> a < n_arrays s2)"
    using ka by auto
qed

lemma grows_touch: "grows s s' \<Longrightarrow> touch D s s'"
  by (auto simp: grows_def touch_def)

lemma touch_wf:
  assumes "wf_store s" "touch D s s'"
  shows "wf_store s'"
  unfolding wf_store_iff
proof (intro allI impI ballI)
  fix d e assume d: "d < n_dicts s'" and e: "e \<in> set (dicts s' d)"
  obtain k a where ka: "e = (k, a)" by (cases e)
  have dn: "d < n_dicts s" using d assms(2) by (simp add: touch_def)
  have le: "n_arrays s \<le> n_arrays s'" using assms(2) by (simp add: touch_def)
  have "(k, a) \<in> set (dicts s d) \<or> (n_arrays s \<le> a \<and> a < n_arrays s')"
  proof (cases "d \<in> D")
    case True
    with assms(2) e ka show ?thesis by (auto simp: touch_def)
  next
    case False
    with assms(2) e ka show ?thesis by (auto simp: touch_def)
  qed
  moreover have "(k, a) \<in> set (dicts s d) \<Longrightarrow> a < n_arrays s"
    using assms(1) dn by (auto simp: wf_store_iff)
  ultimately show "case e of (k, a) \<Rightarrow> a < n_arrays s'" using ka le by auto
qed

lemma touch_sample_of:
  assumes "wf_store s" "touch D s s'" "e < n_dicts s" "e \<notin> D"
  shows "sample_of s' e = sample_of s e"
proof -
  have de: "dicts s' e = dicts s e" using assms by (simp add: touch_def)
  have "\<forall>(k, a)\<in>set (dicts s e). a < n_arrays s" using assms(1,3) by (auto simp: wf_store_iff)
  hence "\<forall>(k, a)\<in>set (dicts s e). arrays s' a = arrays s a"
    using assms(2) by (auto simp: touch_def)
  thus ?thesis by (auto simp: sample_of_def de)
qed

lemma touch_separated:
  assumes "separated s0 s D'" "touch D s s'" "D \<subseteq> D'"
  shows "separated s0 s' D'"
proof -
  have wf: "wf_store s'" using assms by (auto simp: separated_def intro: touch_wf)
  have ex: "extends s0 s" and ow: "\<forall>d\<in>D'. owned s0 s d" using assms(1) by (auto simp: separated_def)
  have "\<forall>d<n_dicts s0. d \<notin> D" using ow assms(3) by (fastforce simp: owned_def)
  hence ex': "extends s0 s'" using ex assms(2) by (auto simp: extends_def touch_def)
  have "owned s0 s' d" if d: "d \<in> D'" for d
  proof -
    have o: "owned s0 s d" using ow d by blast
    have "\<forall>(k, a)\<in>set (dicts s' d). (k, a) \<in> set (dicts s d) \<or> n_arrays s \<le> a"
      using assms(2) by (cases "d \<in> D") (auto simp: touch_def)
    moreover have "n_arrays s0 \<le> n_arrays s" using ex by (simp add: extends_def)
    ultimately show ?thesis using o assms(2) by (fastforce simp: owned_def touch_def)
  qed
  thus ?thesis using wf ex' by (simp add: separated_def)
qed

lemma bind_entries_facts:
  "bind_entries s old smp = (s', es) \<Longrightarrow> \<forall>(k, a)\<in>set old. a < n_arrays s \<Longrightarrow>
     grows s s'
     \<and> (\<forall>(k, a)\<in>set es. (k, a) \<in> set old \<or> (n_arrays s \<le> a \<and> a < n_arrays s'))
     \<and> map (\<lambda>(k, a). (k, arrays s' a)) es = smp"
proof (induction smp arbitrary: s s' es)
  case Nil
  then show ?case by (simp add: grows_refl)
next
  case (Cons e smp)
  obtain k v where e: "e = (k, v)" by (cases e)
  define step where "step = (case map_of old k of
                       Some a0 \<Rightarrow> if arrays s a0 = v then (s, a0) else new_array s v
                     | None \<Rightarrow> new_array s v)"
  obtain s1 a where st: "step = (s1, a)" by (cases step)
  obtain s2 es2 where be: "bind_entries s1 old smp = (s2, es2)" by (cases "bind_entries s1 old smp")
  from Cons.prems(1) e st be have res: "s' = s2" "es = (k, a) # es2"
    by (simp_all add: step_def)
  have s1: "grows s s1 \<and> arrays s1 a = v \<and> a < n_arrays s1 \<and> ((k, a) \<in> set old \<or> n_arrays s \<le> a)"
  proof (cases "map_of old k")
    case None
    with st have "new_array s v = (s1, a)" by (simp add: step_def)
    from new_array_facts[OF this] show ?thesis by auto
  next
    case (Some a0)
    show ?thesis
    proof (cases "arrays s a0 = v")
      case True
      with Some st have "s1 = s" "a = a0" by (simp_all add: step_def)
      moreover have "(k, a0) \<in> set old" using Some by (rule map_of_SomeD)
      ultimately show ?thesis using True Cons.prems(2) by (auto simp: grows_refl)
    next
      case False
      with Some st have "new_array s v = (s1, a)" by (simp add: step_def)
      from new_array_facts[OF this] show ?thesis by auto
    qed
  qed
  have "\<forall>(k, a)\<in>set old. a < n_arrays s1" using Cons.prems(2) s1 by (fastforce simp: grows_def)
  note ih = Cons.IH[OF be this]
  have g: "grows s s2" using s1 ih grows_trans by blast
  have a2: "arrays s2 a = v" using s1 ih by (auto simp: grows_def)
  have le: "n_arrays s \<le> n_arrays s1" "n_arrays s1 \<le> n_arrays s2" using s1 ih by (auto simp: grows_def)
  have "\<forall>(k, a)\<in>set es2. (k, a) \<in> set old \<or> (n_arrays s \<le> a \<and> a < n_arrays s2)"
    using ih le by fastforce
  moreover have "(k, a) \<in> set old \<or> (n_arrays s \<le> a \<and> a < n_arrays s2)" using s1 le by auto
  ultimately show ?case using g a2 ih res e by auto
qed

lemma assign_facts:
  assumes "\<forall>(k, a)\<in>set (dicts s d). a < n_arrays s"
  shows "touch {d} s (assign s d smp) \<and> sample_of (assign s d smp) d = smp"
proof -
  obtain s1 es where be: "bind_entries s (dicts s d) smp = (s1, es)"
    by (cases "bind_entries s (dicts s d) smp")
  note f = bind_entries_facts[OF be assms]
  have a: "assign s d smp = s1\<lparr>dicts := (dicts s1)(d := es)\<rparr>" using be by (simp add: assign_def)
  show ?thesis using f unfolding a by (auto simp: touch_def grows_def sample_of_def)
qed

lemma extends_sample_of:
  assumes "extends s s'" "wf_store s" "d < n_dicts s"
  shows "sample_of s' d = sample_of s d"
proof -
  have de: "dicts s' d = dicts s d" using assms by (simp add: extends_def)
  have "\<forall>(k, a)\<in>set (dicts s d). a < n_arrays s" using assms(2,3) by (auto simp: wf_store_iff)
  hence "\<forall>(k, a)\<in>set (dicts s d). arrays s' a = arrays s a"
    using assms(1) by (auto simp: extends_def)
  thus ?thesis by (auto simp: sample_of_def de)
qed

lemma deepcopy_dict_facts:
  assumes "deepcopy_dict s d = (s', d')" "wf_store s" "d < n_dicts s"
  shows "extends s s' \<and> wf_store s' \<and> d' = n_dicts s \<and> n_dicts s' = Suc (n_dicts s)
         \<and> owned s s' d' \<and> sample_of s' d' = sample_of s d"
proof -
  obtain s1 es where ce: "copy_entries s (dicts s d) = (s1, es)"
    by (cases "copy_entries s (dicts s d)")
  have al: "\<forall>(k, a)\<in>set (dicts s d). a < n_arrays s" using assms(2,3) by (auto simp: wf_store_iff)
  note f = copy_entries_facts[OF ce]
  have r: "s' = s1\<lparr>dicts := (dicts s1)(n_dicts s1 := es), n_dicts := Suc (n_dicts s1)\<rparr>" "d' = n_dicts s1"
    using assms(1) ce by (auto simp: deepcopy_dict_def new_dict_def)
  have g: "grows s s1" using f by blast
  have e: "extends s s'" using g unfolding r by (auto simp: extends_def grows_def)
  have w1: "wf_store s1" using assms(2) g by (rule grows_wf)
  have w: "wf_store s'" using w1 f unfolding r wf_store_iff by (auto simp: less_Suc_eq)
  have o: "owned s s' d'" using f g unfolding r by (auto simp: owned_def grows_def)
  have v: "sample_of s' d' = sample_of s d" using f al unfolding r by (simp add: sample_of_def)
  show ?thesis using e w o v g r by (auto simp: grows_def)
qed

lemma owned_extends: "owned s1 s d \<Longrightarrow> extends s0 s1 \<Longrightarrow> owned s0 s d"
  by (fastforce simp: owned_def extends_def)

lemma owned_later: "owned s0 s d \<Longrightarrow> extends s s' \<Longrightarrow> owned s0 s' d"
  by (auto simp: owned_def extends_def)

lemma deepcopy_list_facts:
  "deepcopy_list s ds = (s', ds') \<Longrightarrow> wf_store s \<Longrightarrow> \<forall>d\<in>set ds. d < n_dicts s \<Longrightarrow>
     extends s s' \<and> wf_store s' \<and> length ds' = length ds \<and> distinct ds'
     \<and> (\<forall>d'\<in>set ds'. owned s s' d')
     \<and> map (sample_of s') ds' = map (sample_of s) ds"
proof (induction ds arbitrary: s s' ds')
  case Nil
  then show ?case by (simp add: extends_refl)
next
  case (Cons d ds)
  obtain s1 d1 where dd: "deepcopy_dict s d = (s1, d1)" by (cases "deepcopy_dict s d")
  obtain s2 ds2 where dl: "deepcopy_list s1 ds = (s2, ds2)" by (cases "deepcopy_list s1 ds")
  from Cons.prems(1) dd dl have res: "s' = s2" "ds' = d1 # ds2" by simp_all
  have dn: "d < n_dicts s" using Cons.prems(3) by simp
  note f1 = deepcopy_dict_facts[OF dd Cons.prems(2) dn]
  have al: "\<forall>d\<in>set ds. d < n_dicts s1" using Cons.prems(3) f1 by auto
  have w1: "wf_store s1" using f1 by blast
  note f2 = Cons.IH[OF dl w1 al]
  have e: "extends s s2" using f1 f2 extends_trans by blast
  have o1: "owned s s2 d1" using f1 f2 owned_later by blast
  have o2: "\<forall>d'\<in>set ds2. owned s s2 d'" using f1 f2 owned_extends by blast
  have "\<forall>d'\<in>set ds2. n_dicts s1 \<le> d'" using f2 by (auto simp: owned_def)
  hence nin: "d1 \<notin> set ds2" using f1 by auto
  have "d1 < n_dicts s1" using f1 by simp
  hence v1: "sample_of s2 d1 = sample_of s1 d1"
    using f2 w1 extends_sample_of by blast
  have v2: "map (sample_of s1) ds = map (sample_of s) ds"
  proof (rule map_cong[OF refl])
    fix x assume "x \<in> set ds"
    hence "x < n_dicts s" using Cons.prems(3) by simp
    thus "sample_of s1 x = sample_of s x" using f1 Cons.prems(2) extends_sample_of by blast
  qed
  have m2: "map (sample_of s2) ds2 = map (sample_of s1) ds" using f2 by blast
  have m3: "map (sample_of s2) ds2 = map (sample_of s) ds" using m2 v2 by (rule trans)
  have h0: "sample_of s1 d1 = sample_of s d" using f1 by blast
  have h1: "sample_of s2 d1 = sample_of s d" using v1 h0 by (rule trans)
  have v: "map (sample_of s2) (d1 # ds2) = map (sample_of s) (d # ds)"
    using h1 m3 by (simp only: list.map)
  have len: "length (d1 # ds2) = length (d # ds)" using f2 by simp
  have dis: "distinct (d1 # ds2)" using f2 nin by simp
  have ow: "\<forall>d'\<in>set (d1 # ds2). owned s s2 d'" using o1 o2 by simp
  have w2: "wf_store s2" using f2 by blast
  show ?case unfolding res using e w2 len dis ow v by blast
qed

lemma forward_at_facts:
  assumes "forward_at fwd opl md s d = Inr s'" "wf_store s" "d < n_dicts s"
  shows "touch {d} s s' \<and> fwd opl (sample_of s d) md = Inr (sample_of s' d)"
proof -
  obtain smp where f: "fwd opl (sample_of s d) md = Inr smp" and s': "s' = assign s d smp"
    using assms(1) by (auto simp: forward_at_def split: sum.splits)
  have "\<forall>(k, a)\<in>set (dicts s d). a < n_arrays s" using assms(2,3) by (auto simp: wf_store_iff)
  from assign_facts[OF this, of smp] show ?thesis using f s' by simp
qed

lemma forward_at_error:
  "forward_at fwd opl md s d = Inl e \<longleftrightarrow> fwd opl (sample_of s d) md = Inl e"
  by (auto simp: forward_at_def split: sum.splits)

lemma forward_each_facts:
  "wf_store s \<Longrightarrow> \<forall>d\<in>set items. d < n_dicts s \<Longrightarrow> distinct items \<Longrightarrow>
     (case forward_each fwd opl md s items of
        Inl e \<Rightarrow> forward_values fwd opl md (map (sample_of s) items) = Inl e
      | Inr s' \<Rightarrow> touch (set items) s s'
                 \<and> forward_values fwd opl md (map (sample_of s) items) = Inr (map (sample_of s') items))"
proof (induction items arbitrary: s)
  case Nil
  then show ?case by (simp add: touch_refl)
next
  case (Cons d ds)
  show ?case
  proof (cases "forward_at fwd opl md s d")
    case (Inl e)
    thus ?thesis using forward_at_error[of fwd opl md s d e] by simp
  next
    case (Inr s1)
    have dn: "d < n_dicts s" using Cons.prems(2) by simp
    note f1 = forward_at_facts[OF Inr Cons.prems(1) dn]
    have w1: "wf_store s1" using Cons.prems(1) f1 touch_wf by blast
    have al: "\<forall>d\<in>set ds. d < n_dicts s1" using Cons.prems(2) f1 by (auto simp: touch_def)
    have di: "distinct ds" "d \<notin> set ds" using Cons.prems(3) by simp_all
    note ih = Cons.IH[OF w1 al di(1)]
    have same: "map (sample_of s1) ds = map (sample_of s) ds"
    proof (rule map_cong[OF refl])
      fix e assume "e \<in> set ds"
      hence "e < n_dicts s" "e \<notin> {d}" using Cons.prems(2) di by auto
      thus "sample_of s1 e = sample_of s e" using touch_sample_of Cons.prems(1) f1 by blast
    qed
    show ?thesis
    proof (cases "forward_each fwd opl md s1 ds")
      case (Inl e)
      with ih have "forward_values fwd opl md (map (sample_of s1) ds) = Inl e" by simp
      thus ?thesis using Inr Inl f1 same by simp
    next
      case r: (Inr s')
      with ih have t: "touch (set ds) s1 s'"
        and v: "forward_values fwd opl md (map (sample_of s1) ds) = Inr (map (sample_of s') ds)"
        by simp_all
      have "d < n_dicts s1" using dn f1 by (simp add: touch_def)
      hence keep: "sample_of s' d = sample_of s1 d" using touch_sample_of w1 t di(2) by blast
      have "touch (set (d # ds)) s s1" "touch (set (d # ds)) s1 s'"
        using f1 t by (auto intro: touch_mono)
      hence "touch (set (d # ds)) s s'" by (rule touch_trans)
      thus ?thesis using Inr r f1 v same keep by simp
    qed
  qed
qed

lemma assign_all_facts:
  "wf_store s \<Longrightarrow> \<forall>d\<in>set items. d < n_dicts s \<Longrightarrow> distinct items \<Longrightarrow>
     touch (set items) s (assign_all s items smps)
     \<and> map (sample_of (assign_all s items smps)) items = written_back (map (sample_of s) items) smps"
proof (induction items arbitrary: s smps)
  case Nil
  then show ?case by (simp add: touch_refl written_back_def)
next
  case (Cons d ds)
  show ?case
  proof (cases smps)
    case Nil
    then show ?thesis by (simp add: touch_refl written_back_def)
  next
    case c: (Cons smp rest)
    have dn: "d < n_dicts s" using Cons.prems(2) by simp
    have "\<forall>(k, a)\<in>set (dicts s d). a < n_arrays s" using Cons.prems(1) dn by (auto simp: wf_store_iff)
    note f1 = assign_facts[OF this, of smp]
    define s1 where "s1 = assign s d smp"
    have t1: "touch {d} s s1" and v1: "sample_of s1 d = smp" using f1 by (simp_all add: s1_def)
    have w1: "wf_store s1" using Cons.prems(1) t1 touch_wf by blast
    have al: "\<forall>d\<in>set ds. d < n_dicts s1" using Cons.prems(2) t1 by (auto simp: touch_def)
    have di: "distinct ds" "d \<notin> set ds" using Cons.prems(3) by simp_all
    note ih = Cons.IH[OF w1 al di(1), of rest]
    have t2: "touch (set ds) s1 (assign_all s1 ds rest)" using ih by simp
    have same: "map (sample_of s1) ds = map (sample_of s) ds"
    proof (rule map_cong[OF refl])
      fix e assume "e \<in> set ds"
      hence "e < n_dicts s" "e \<notin> {d}" using Cons.prems(2) di by auto
      thus "sample_of s1 e = sample_of s e" using touch_sample_of Cons.prems(1) t1 by blast
    qed
    have "d < n_dicts s1" using dn t1 by (simp add: touch_def)
    hence keep: "sample_of (assign_all s1 ds rest) d = smp"
      using touch_sample_of[OF w1 t2 _ di(2)] v1 by simp
    have "touch (set (d # ds)) s s1" "touch (set (d # ds)) s1 (assign_all s1 ds rest)"
      using t1 t2 by (auto intro: touch_mono)
    hence tt: "touch (set (d # ds)) s (assign_all s1 ds rest)" by (rule touch_trans)
    have m1: "map (sample_of (assign_all s1 ds rest)) ds = written_back (map (sample_of s1) ds) rest"
      using ih by simp
    have m2: "map (sample_of (assign_all s1 ds rest)) ds = written_back (map (sample_of s) ds) rest"
      using m1 by (simp only: same)
    show ?thesis using tt keep m2 c by (simp add: s1_def written_back_def)
  qed
qed

lemma map_of_sample_of: "map_of (sample_of s d) k = map_option (arrays s) (map_of (dicts s d) k)"
  unfolding sample_of_def by (induction "dicts s d" arbitrary: d) (auto simp: map_of_map)

lemma column_eq: "column s items key = column_value (map (sample_of s) items) key"
  by (induction items) (auto simp: map_of_sample_of split: option.splits sum.splits)

lemma collate_keys_facts:
  "\<forall>d\<in>set items. \<forall>(k, a)\<in>set (dicts s d). a < n_arrays s \<Longrightarrow>
     (case collate_keys s items keys of
        Inl e \<Rightarrow> collate_columns (map (sample_of s) items) keys = Inl e
      | Inr (s', es) \<Rightarrow>
          grows s s' \<and> map fst es = keys
          \<and> (\<forall>(k, a)\<in>set es. n_arrays s \<le> a \<and> a < n_arrays s')
          \<and> collate_columns (map (sample_of s) items) keys = Inr (map (\<lambda>(k, a). (k, arrays s' a)) es))"
proof (induction keys arbitrary: s)
  case Nil
  then show ?case by (simp add: grows_refl)
next
  case (Cons key keys)
  show ?case
  proof (cases "column s items key")
    case (Inl e)
    thus ?thesis using column_eq[of s items key] by simp
  next
    case (Inr vs)
    hence cv: "column_value (map (sample_of s) items) key = Inr vs" using column_eq[of s items key] by simp
    show ?thesis
    proof (cases "np_array vs")
      case (Inl e)
      thus ?thesis using Inr cv by simp
    next
      case ar: (Inr arr)
      obtain s1 a where na: "new_array s arr = (s1, a)" by (cases "new_array s arr")
      note f1 = new_array_facts[OF na]
      have g1: "grows s s1" using f1 by blast
      have al1: "\<forall>d\<in>set items. \<forall>(k, a)\<in>set (dicts s1 d). a < n_arrays s1"
        using Cons.prems g1 by (fastforce simp: grows_def)
      have same: "map (sample_of s1) items = map (sample_of s) items"
      proof (rule map_cong[OF refl])
        fix d assume "d \<in> set items"
        hence "\<forall>(k, a)\<in>set (dicts s d). a < n_arrays s" using Cons.prems by blast
        thus "sample_of s1 d = sample_of s d" using g1 grows_sample_of by blast
      qed
      note ih = Cons.IH[OF al1]
      show ?thesis
      proof (cases "collate_keys s1 items keys")
        case (Inl e)
        with ih have "collate_columns (map (sample_of s1) items) keys = Inl e" by simp
        hence "collate_columns (map (sample_of s) items) keys = Inl e" by (simp only: same)
        thus ?thesis using Inr ar na Inl cv by simp
      next
        case r: (Inr p)
        obtain s2 es where p: "p = (s2, es)" by (cases p)
        from ih r p have g2: "grows s1 s2" and ks: "map fst es = keys"
          and fr: "\<forall>(k, a)\<in>set es. n_arrays s1 \<le> a \<and> a < n_arrays s2"
          and v: "collate_columns (map (sample_of s1) items) keys = Inr (map (\<lambda>(k, a). (k, arrays s2 a)) es)"
          by simp_all
        have v': "collate_columns (map (sample_of s) items) keys = Inr (map (\<lambda>(k, a). (k, arrays s2 a)) es)"
          using v by (simp only: same)
        have g: "grows s s2" using g1 g2 by (rule grows_trans)
        have a2: "arrays s2 a = arr \<and> n_arrays s \<le> a \<and> a < n_arrays s2"
          using f1 g2 by (auto simp: grows_def)
        have fr': "\<forall>(k, a)\<in>set es. n_arrays s \<le> a \<and> a < n_arrays s2"
          using fr f1 by fastforce
        show ?thesis using Inr ar na r p cv v' g a2 fr' ks by simp
      qed
    qed
  qed
qed

lemma collate_facts:
  assumes "wf_store s" "\<forall>d\<in>set items. d < n_dicts s"
  shows "(case collate s items of
            Inl e \<Rightarrow> collate_value (map (sample_of s) items) = Inl e
          | Inr (s', m) \<Rightarrow>
              extends s s' \<and> wf_store s' \<and> owned s s' m
              \<and> collate_value (map (sample_of s) items) = Inr (sample_of s' m))"
proof (cases items)
  case Nil
  then show ?thesis by (simp add: collate_def collate_value_def)
next
  case (Cons first rest)
  have al: "\<forall>d\<in>set items. \<forall>(k, a)\<in>set (dicts s d). a < n_arrays s"
    using assms by (auto simp: wf_store_iff)
  have ks: "map fst (sample_of s first) = map fst (dicts s first)"
    by (auto simp: sample_of_def)
  note f = collate_keys_facts[OF al, of "map fst (dicts s first)"]
  show ?thesis
  proof (cases "collate_keys s items (map fst (dicts s first))")
    case (Inl e)
    with f show ?thesis using Cons by (simp add: collate_def collate_value_def ks)
  next
    case (Inr p)
    obtain s1 es where p: "p = (s1, es)" by (cases p)
    from f Inr p have g: "grows s s1"
      and fr: "\<forall>(k, a)\<in>set es. n_arrays s \<le> a \<and> a < n_arrays s1"
      and v: "collate_columns (map (sample_of s) items) (map fst (dicts s first))
                = Inr (map (\<lambda>(k, a). (k, arrays s1 a)) es)"
      by simp_all
    define s' where "s' = s1\<lparr>dicts := (dicts s1)(n_dicts s1 := es), n_dicts := Suc (n_dicts s1)\<rparr>"
    have c: "collate s items = Inr (s', n_dicts s1)"
      using Cons Inr p by (simp add: collate_def new_dict_def s'_def)
    have e: "extends s s'" using g by (auto simp: extends_def grows_def s'_def)
    have w1: "wf_store s1" using assms(1) g by (rule grows_wf)
    have w: "wf_store s'" using w1 fr unfolding s'_def wf_store_iff by (auto simp: less_Suc_eq)
    have o: "owned s s' (n_dicts s1)" using fr g by (auto simp: owned_def grows_def s'_def)
    have sv: "sample_of s' (n_dicts s1) = map (\<lambda>(k, a). (k, arrays s1 a)) es"
      by (simp add: sample_of_def s'_def)
    have "collate_value (map (sample_of s) items) = Inr (sample_of s' (n_dicts s1))"
      using Cons v sv by (simp add: collate_value_def ks)
    thus ?thesis using c e w o by simp
  qed
qed

lemma owned_alloc: "owned s0 s d \<Longrightarrow> d < n_dicts s" by (simp add: owned_def)

lemma batch_items_facts:
  assumes "wf_store s" "\<forall>d\<in>set retrieved. d < n_dicts s"
  shows "(case batch_items fwd pad opl md pad_value s retrieved of
            Inl e \<Rightarrow> batch_values fwd pad opl md pad_value (map (sample_of s) retrieved) = Inl e
          | Inr (s', items) \<Rightarrow>
              separated s s' (set items) \<and> length items = length retrieved
              \<and> batch_values fwd pad opl md pad_value (map (sample_of s) retrieved)
                  = Inr (map (sample_of s') items))"
proof -
  obtain s1 items where dl: "deepcopy_list s retrieved = (s1, items)"
    by (cases "deepcopy_list s retrieved")
  note f1 = deepcopy_list_facts[OF dl assms]
  have w1: "wf_store s1" and di: "distinct items" and len: "length items = length retrieved"
    and v1: "map (sample_of s1) items = map (sample_of s) retrieved"
    using f1 by blast+
  have i1: "separated s s1 (set items)" using f1 by (simp add: separated_def)
  have al1: "\<forall>d\<in>set items. d < n_dicts s1" using f1 owned_alloc by blast
  note f2 = forward_each_facts[OF w1 al1 di, of fwd opl md]
  show ?thesis
  proof (cases "forward_each fwd opl md s1 items")
    case (Inl e)
    with f2 have "forward_values fwd opl md (map (sample_of s1) items) = Inl e" by simp
    hence "forward_values fwd opl md (map (sample_of s) retrieved) = Inl e" by (simp only: v1)
    thus ?thesis using dl Inl by (simp add: batch_items_def batch_values_def)
  next
    case (Inr s2)
    with f2 have t2: "touch (set items) s1 s2"
      and v2: "forward_values fwd opl md (map (sample_of s1) items) = Inr (map (sample_of s2) items)"
      by simp_all
    have v2': "forward_values fwd opl md (map (sample_of s) retrieved) = Inr (map (sample_of s2) items)"
      using v2 by (simp only: v1)
    have i2: "separated s s2 (set items)" using i1 t2 by (rule touch_separated) simp
    have w2: "wf_store s2" using i2 by (simp add: separated_def)
    have al2: "\<forall>d\<in>set items. d < n_dicts s2" using al1 t2 by (simp add: touch_def)
    show ?thesis
    proof (cases pad_value)
      case None
      thus ?thesis using dl Inr v2' i2 len by (simp add: batch_items_def batch_values_def)
    next
      case (Some pv)
      show ?thesis
      proof (cases "pad (map (sample_of s2) items) pv")
        case (Inl e)
        thus ?thesis using dl Inr Some v2' by (simp add: batch_items_def batch_values_def pad_at_def)
      next
        case r: (Inr ps)
        note f3 = assign_all_facts[OF w2 al2 di, of ps]
        have i3: "separated s (assign_all s2 items ps) (set items)"
          using i2 f3 by (blast intro: touch_separated)
        show ?thesis using dl Inr Some r v2' f3 i3 len
          by (simp add: batch_items_def batch_values_def pad_at_def)
      qed
    qed
  qed
qed

lemma stored_in_iff: "stored_in ds s \<longleftrightarrow> (\<forall>d\<in>set (stored_dicts ds). d < n_dicts s)"
  by (simp add: stored_in_def list_all_iff)

lemma getitem_facts:
  assumes "wf_store s" "stored_in (dataset self) s"
  shows "(case OpDataset_getitem fwd pad self s index of
            Inl e \<Rightarrow> getitem_value fwd pad self (sample_of s) index = Inl e
          | Inr (s', m) \<Rightarrow>
              separated s s' {m} \<and> getitem_value fwd pad self (sample_of s) index = Inr (sample_of s' m))"
proof (cases "dataset self")
  case (Dataset stored)
  show ?thesis
  proof (cases "index < length stored")
    case False
    thus ?thesis using Dataset by (simp add: OpDataset_getitem_def getitem_value_def)
  next
    case True
    define d where "d = stored ! index"
    have dn: "d < n_dicts s" using assms(2) Dataset True by (auto simp: stored_in_iff d_def)
    obtain s1 m where dd: "deepcopy_dict s d = (s1, m)" by (cases "deepcopy_dict s d")
    note f1 = deepcopy_dict_facts[OF dd assms(1) dn]
    have w1: "wf_store s1" and v1: "sample_of s1 m = sample_of s d"
      and e1: "extends s s1" and o1: "owned s s1 m" using f1 by blast+
    have i1: "separated s s1 {m}" using w1 e1 o1 by (simp add: separated_def)
    have mn: "m < n_dicts s1" using o1 by (rule owned_alloc)
    show ?thesis
    proof (cases "forward_at fwd (ds_ops self) (ds_mode self) s1 m")
      case (Inl e)
      hence "fwd (ds_ops self) (sample_of s d) (ds_mode self) = Inl e"
        using forward_at_error[of fwd "ds_ops self" "ds_mode self" s1 m e] v1 by simp
      thus ?thesis using Dataset True dd Inl
        by (simp add: OpDataset_getitem_def getitem_value_def d_def)
    next
      case (Inr s2)
      note f2 = forward_at_facts[OF Inr w1 mn]
      have i2: "separated s s2 {m}" using i1 f2 by (blast intro: touch_separated)
      have "fwd (ds_ops self) (sample_of s d) (ds_mode self) = Inr (sample_of s2 m)"
        using f2 v1 by simp
      thus ?thesis using Dataset True dd Inr i2
        by (simp add: OpDataset_getitem_def getitem_value_def d_def)
    qed
  qed
next
  case (BatchDataset stored pad_value)
  show ?thesis
  proof (cases "index < length stored")
    case False
    thus ?thesis using BatchDataset by (simp add: OpDataset_getitem_def getitem_value_def)
  next
    case True
    define retrieved where "retrieved = stored ! index"
    have "set retrieved \<subseteq> set (concat stored)"
      using nth_mem[OF True] by (auto simp: retrieved_def)
    hence al: "\<forall>d\<in>set retrieved. d < n_dicts s"
      using assms(2) BatchDataset by (auto simp: stored_in_iff)
    note f1 = batch_items_facts[OF assms(1) al, of fwd pad "ds_ops self" "ds_mode self" pad_value]
    show ?thesis
    proof (cases "batch_items fwd pad (ds_ops self) (ds_mode self) pad_value s retrieved")
      case (Inl e)
      thus ?thesis using f1 BatchDataset True
        by (simp add: OpDataset_getitem_def getitem_value_def retrieved_def)
    next
      case (Inr p)
      obtain s3 items where p: "p = (s3, items)" by (cases p)
      from f1 Inr p have i3: "separated s s3 (set items)"
        and v3: "batch_values fwd pad (ds_ops self) (ds_mode self) pad_value (map (sample_of s) retrieved)
                  = Inr (map (sample_of s3) items)"
        by simp_all
      have w3: "wf_store s3" and e3: "extends s s3" using i3 by (simp_all add: separated_def)
      have al3: "\<forall>d\<in>set items. d < n_dicts s3" using i3 by (auto simp: separated_def owned_def)
      note f2 = collate_facts[OF w3 al3]
      show ?thesis
      proof (cases "collate s3 items")
        case (Inl e)
        thus ?thesis using f2 v3 Inr p BatchDataset True
          by (simp add: OpDataset_getitem_def getitem_value_def retrieved_def)
      next
        case r: (Inr q)
        obtain s4 m where q: "q = (s4, m)" by (cases q)
        from f2 r q have e4: "extends s3 s4" and w4: "wf_store s4" and o4: "owned s3 s4 m"
          and v4: "collate_value (map (sample_of s3) items) = Inr (sample_of s4 m)"
          by simp_all
        have "separated s s4 {m}" using e3 e4 w4 o4 by (auto simp: separated_def intro: extends_trans owned_extends)
        thus ?thesis using v3 v4 Inr p r q BatchDataset True
          by (simp add: OpDataset_getitem_def getitem_value_def retrieved_def)
      qed
    qed
  qed
qed

lemma set_update_subset: "set (AList.update k v al) \<subseteq> insert (k, v) (set al)"
  by (induction al) auto

lemma set_delete_subset: "set (AList.delete k al) \<subseteq> set al"
  by (induction al) auto

lemma apply_mutation_separated:
  assumes "separated s0 s {m}"
  shows "separated s0 (apply_mutation m mut s) {m}"
proof (cases mut)
  case (SetItem k v)
  define s' where "s' = apply_mutation m (SetItem k v) s"
  have s': "s' = s\<lparr>arrays := (arrays s)(n_arrays s := v), n_arrays := Suc (n_arrays s),
                   dicts := (dicts s)(m := AList.update k (n_arrays s) (dicts s m))\<rparr>"
    by (simp add: s'_def new_array_def)
  have "touch {m} s s'"
    unfolding touch_def s' using set_update_subset[of k "n_arrays s" "dicts s m"] by auto
  thus ?thesis using assms SetItem unfolding s'_def by (blast intro: touch_separated)
next
  case (PopItem k)
  have "touch {m} s (apply_mutation m (PopItem k) s)"
    unfolding touch_def using set_delete_subset[of k "dicts s m"] by auto
  thus ?thesis using assms PopItem by (blast intro: touch_separated)
next
  case (WriteArray k v)
  show ?thesis
  proof (cases "map_of (dicts s m) k")
    case None
    thus ?thesis using assms WriteArray by simp
  next
    case (Some a)
    hence "(k, a) \<in> set (dicts s m)" by (rule map_of_SomeD)
    hence "n_arrays s0 \<le> a" using assms by (auto simp: separated_def owned_def)
    hence "separated s0 (s\<lparr>arrays := (arrays s)(a := v)\<rparr>) {m}"
      using assms by (auto simp: separated_def extends_def owned_def wf_store_iff)
    thus ?thesis using Some WriteArray by simp
  qed
qed

lemma mutate_separated: "separated s0 s {m} \<Longrightarrow> separated s0 (mutate m muts s) {m}"
  unfolding mutate_def by (induction muts arbitrary: s) (simp_all add: apply_mutation_separated)

lemma separated_stored:
  assumes "separated s0 s D" "wf_store s0" "stored_in ds s0"
  shows "wf_store s \<and> stored_in ds s
         \<and> (\<forall>d\<in>set (stored_dicts ds). dicts s d = dicts s0 d \<and> sample_of s d = sample_of s0 d)"
proof -
  have e: "extends s0 s" and w: "wf_store s" using assms(1) by (simp_all add: separated_def)
  have "\<forall>d\<in>set (stored_dicts ds). d < n_dicts s0" using assms(3) by (simp add: stored_in_iff)
  thus ?thesis using e w assms(2) extends_sample_of[OF e assms(2)]
    by (auto simp: stored_in_iff extends_def)
qed

lemma getitem_value_cong:
  assumes "\<forall>d\<in>set (stored_dicts (dataset self)). f d = g d"
  shows "getitem_value fwd pad self f index = getitem_value fwd pad self g index"
proof (cases "dataset self")
  case (Dataset stored)
  thus ?thesis using assms by (auto simp: getitem_value_def)
next
  case (BatchDataset stored pad_value)
  show ?thesis
  proof (cases "index < length stored")
    case True
    hence "stored ! index \<in> set stored" by simp
    hence "set (stored ! index) \<subseteq> set (concat stored)" by auto
    hence m: "map f (stored ! index) = map g (stored ! index)"
      using assms BatchDataset by auto
    show ?thesis unfolding getitem_value_def BatchDataset by (simp only: m dataset.case)
  next
    case False
    thus ?thesis using BatchDataset by (simp add: getitem_value_def)
  qed
qed

lemma column_value_present:
  "\<forall>smp\<in>set smps. k \<in> fst ` set smp \<Longrightarrow>
     column_value smps k = Inr (map (\<lambda>smp. the (map_of smp k)) smps)"
proof (induction smps)
  case Nil
  then show ?case by simp
next
  case (Cons smp smps)
  hence "k \<in> fst ` set smp" by simp
  then obtain v where "map_of smp k = Some v"
    by (metis domD dom_map_of_conv_image_fst)
  with Cons show ?case by simp
qed

lemma column_value_result:
  "(case column_value smps k of
      Inl e \<Rightarrow> e = KeyError k \<and> \<not> (\<forall>smp\<in>set smps. k \<in> fst ` set smp)
    | Inr vs \<Rightarrow> (\<forall>smp\<in>set smps. k \<in> fst ` set smp) \<and> vs = map (\<lambda>smp. the (map_of smp k)) smps)"
proof (induction smps)
  case Nil
  then show ?case by simp
next
  case (Cons smp smps)
  show ?case
  proof (cases "map_of smp k")
    case None
    hence "k \<notin> fst ` set smp" by (simp add: map_of_eq_None_iff)
    with None show ?thesis by simp
  next
    case (Some v)
    hence "k \<in> fst ` set smp" by (metis domI dom_map_of_conv_image_fst)
    with Some Cons show ?thesis by (auto split: sum.splits)
  qed
qed

lemma collate_columns_result:
  "(case collate_columns smps keys of
      Inl e \<Rightarrow>
        ((\<exists>k. e = KeyError k) \<or> e = ValueError)
        \<and> \<not> (\<forall>k\<in>set keys. (\<forall>smp\<in>set smps. k \<in> fst ` set smp)
                 \<and> rectangular (Stack (map (\<lambda>smp. the (map_of smp k)) smps)))
    | Inr r \<Rightarrow>
        (\<forall>k\<in>set keys. (\<forall>smp\<in>set smps. k \<in> fst ` set smp)
            \<and> rectangular (Stack (map (\<lambda>smp. the (map_of smp k)) smps)))
        \<and> r = map (\<lambda>k. (k, Stack (map (\<lambda>smp. the (map_of smp k)) smps))) keys)"
proof (induction keys)
  case Nil
  then show ?case by simp
next
  case (Cons key keys)
  note c = column_value_result[where smps=smps and k=key]
  show ?case
  proof (cases "column_value smps key")
    case (Inl e)
    with c show ?thesis by auto
  next
    case (Inr vs)
    with c have pres: "\<forall>smp\<in>set smps. key \<in> fst ` set smp"
      and vs: "vs = map (\<lambda>smp. the (map_of smp key)) smps" by simp_all
    show ?thesis
    proof (cases "rectangular (Stack vs)")
      case False
      hence "np_array vs = Inl ValueError" by (simp add: np_array_def)
      thus ?thesis using Inr False vs by auto
    next
      case True
      hence np: "np_array vs = Inr (Stack vs)" by (simp add: np_array_def)
      show ?thesis
      proof (cases "collate_columns smps keys")
        case (Inl e)
        with Cons show ?thesis using Inr np by auto
      next
        case r: (Inr rest)
        with Cons show ?thesis using Inr np pres vs True by auto
      qed
    qed
  qed
qed

lemma collate_value_result:
  "(case collate_value smps of
      Inl e \<Rightarrow> (e = IndexError \<or> (\<exists>k. e = KeyError k) \<or> e = ValueError) \<and> \<not> collatable smps
    | Inr r \<Rightarrow> collatable smps \<and> r = stacked smps)"
proof (cases smps)
  case Nil
  then show ?thesis by (simp add: collate_value_def collatable_def)
next
  case (Cons first rest)
  have eq: "(\<forall>k\<in>set (map fst first). (\<forall>smp\<in>set smps. k \<in> fst ` set smp)
                \<and> rectangular (Stack (map (\<lambda>smp. the (map_of smp k)) smps)))
            \<longleftrightarrow> collatable smps"
    unfolding collatable_def using Cons by auto
  note c = collate_columns_result[where smps=smps and keys="map fst first"]
  show ?thesis
  proof (cases "collate_columns smps (map fst first)")
    case (Inl e)
    with c eq show ?thesis using Cons by (auto simp: collate_value_def)
  next
    case (Inr r)
    with c eq show ?thesis using Cons by (simp add: collate_value_def stacked_def)
  qed
qed

lemmas eval_defs = OpDataset_getitem_def batch_items_def deepcopy_dict_def new_dict_def new_array_def
  forward_at_def sample_of_def assign_def pad_at_def collate_def example_store_def example_ops_def no_pad_def
  forward_numpyop_def selected_def Binarize_def get_inputs_by_op_def write_outputs_by_op_def
  astype_float32_def ge_array_def wf_store_def stored_in_def mutate_def stacked_def list_all_iff
  np_array_def

text \<open>
  Claim C3, as stated, fails: a batch dataset whose retrieved list holds the mappings
  \<open>{"x": ...}\<close> and \<open>{"y": ...}\<close> is a list of per-sample mappings, and
  \<open>__getitem__\<close> returns no mapping for it: the comprehension looks every key of the first
  mapping up in every mapping and raises \<open>KeyError\<close> at the second. Nor does it return a
  mapping for the list of \<open>{"x": [0.2, 0.7]}\<close> and \<open>{"x": [1, 2, 3]}\<close> without a pad
  value: the two arrays do not stack, and \<open>np.array\<close> raises \<open>ValueError\<close>.
\<close>

theorem OpDataset_getitem_missing_key_counterexample:
  "wf_store example_store
   \<and> stored_in (BatchDataset [[1, 2], [0, 3]] (None :: real option)) example_store
   \<and> OpDataset_getitem forward_numpyop no_pad
        \<lparr>dataset = BatchDataset [[1, 2], [0, 3]] (None :: real option), ds_ops = [],
         ds_mode = Some ''train''\<rparr>
        example_store 0
      = Inl (KeyError ''x'')
   \<and> OpDataset_getitem forward_numpyop no_pad
        \<lparr>dataset = BatchDataset [[1, 2], [0, 3]] (None :: real option), ds_ops = [],
         ds_mode = Some ''train''\<rparr>
        example_store 1
      = Inl ValueError"
  by (simp add: eval_defs)

text \<open>
  Claim C3, amended. For a batch dataset and a valid index, let the per-sample mappings
  be those after the operations (and the padding, when configured). When their list is
  not empty, every mapping of it has every key of the first one, and for every such key
  the values of the mappings stack to a rectangular array, \<open>__getitem__\<close> returns one new
  mapping whose keys are the keys of the first per-sample mapping, in their order, each
  bound to the stack of that key's values in every per-sample mapping, in list order.
  Otherwise it returns no mapping: it raises \<open>IndexError\<close>, \<open>KeyError\<close> or
  \<open>ValueError\<close>.
\<close>

theorem OpDataset_getitem_collates:
  assumes "wf_store s" "stored_in (dataset self) s"
    and "dataset self = BatchDataset stored pad_value" "index < length stored"
    and "batch_items fwd pad (ds_ops self) (ds_mode self) pad_value s (stored ! index) = Inr (s1, items)"
  shows "(collatable (map (sample_of s1) items) \<longrightarrow>
            (\<exists>s2 m. OpDataset_getitem fwd pad self s index = Inr (s2, m)
               \<and> map fst (dicts s2 m) = map fst (dicts s1 (hd items))
               \<and> sample_of s2 m = stacked (map (sample_of s1) items)))
       \<and> (\<not> collatable (map (sample_of s1) items) \<longrightarrow>
            (\<exists>e. OpDataset_getitem fwd pad self s index = Inl e
               \<and> (e = IndexError \<or> (\<exists>k. e = KeyError k) \<or> e = ValueError)))"
proof -
  have "stored ! index \<in> set stored" using assms(4) by simp
  hence "set (stored ! index) \<subseteq> set (concat stored)" by auto
  hence al: "\<forall>d\<in>set (stored ! index). d < n_dicts s"
    using assms(2,3) by (auto simp: stored_in_iff)
  note f1 = batch_items_facts[OF assms(1) al, of fwd pad "ds_ops self" "ds_mode self" pad_value]
  from f1 assms(5) have i1: "separated s s1 (set items)" by simp
  have w1: "wf_store s1" using i1 by (simp add: separated_def)
  have al1: "\<forall>d\<in>set items. d < n_dicts s1" using i1 by (auto simp: separated_def owned_def)
  have g: "OpDataset_getitem fwd pad self s index = collate s1 items"
    using assms(3,4,5) by (simp add: OpDataset_getitem_def)
  note f2 = collate_facts[OF w1 al1]
  note cv = collate_value_result[of "map (sample_of s1) items"]
  show ?thesis
  proof (cases "collate s1 items")
    case (Inl e)
    with f2 have "collate_value (map (sample_of s1) items) = Inl e" by simp
    with cv have "(e = IndexError \<or> (\<exists>k. e = KeyError k) \<or> e = ValueError)
                  \<and> \<not> collatable (map (sample_of s1) items)" by simp
    thus ?thesis using g Inl by simp
  next
    case (Inr q)
    obtain s2 m where q: "q = (s2, m)" by (cases q)
    from f2 Inr q have "collate_value (map (sample_of s1) items) = Inr (sample_of s2 m)" by simp
    with cv have co: "collatable (map (sample_of s1) items)"
      and v: "sample_of s2 m = stacked (map (sample_of s1) items)" by simp_all
    have ne: "items \<noteq> []" using co by (auto simp: collatable_def)
    have hd: "hd (map (sample_of s1) items) = sample_of s1 (hd items)"
      using ne by (simp add: hd_map)
    have "map fst (sample_of s2 m) = map fst (sample_of s1 (hd items))"
      unfolding v by (simp add: stacked_def hd comp_def)
    hence "map fst (dicts s2 m) = map fst (dicts s1 (hd items))"
      by (simp add: sample_of_def comp_def case_prod_beta)
    thus ?thesis using g Inr q v co by simp
  qed
qed

theorem OpDataset_getitem_collates_witness:
  "wf_store example_store
   \<and> stored_in (BatchDataset [[0, 1], [0, 3]] (None :: real option)) example_store
   \<and> (\<exists>s2 m. OpDataset_getitem forward_numpyop no_pad
                 \<lparr>dataset = BatchDataset [[0, 1], [0, 3]] (None :: real option), ds_ops = example_ops,
                  ds_mode = Some ''train''\<rparr>
                 example_store 0 = Inr (s2, m)
              \<and> sample_of s2 m
                  = [(''x'', Stack [Stack [Scalar (Fin 0), Scalar (Fin 1)],
                                    Stack [Scalar (Fin 1), Scalar (Fin 0)]])])
   \<and> (\<exists>e. OpDataset_getitem forward_numpyop no_pad
                 \<lparr>dataset = BatchDataset [[0, 1], [0, 3]] (None :: real option), ds_ops = example_ops,
                  ds_mode = Some ''train''\<rparr>
                 example_store 1 = Inl e)"
proof -
  let ?self = "\<lparr>dataset = BatchDataset [[0, 1], [0, 3]] (None :: real option), ds_ops = example_ops,
                ds_mode = Some ''train''\<rparr>"
  have w: "wf_store example_store" by (simp add: eval_defs)
  have st: "stored_in (dataset ?self) example_store" by (simp add: eval_defs)
  have d: "dataset ?self = BatchDataset [[0, 1], [0, 3]] (None :: real option)" by simp
  have i0: "(0::nat) < length [[0::nat, 1], [0, 3]]" and i1: "(1::nat) < length [[0::nat, 1], [0, 3]]"
    by simp_all
  have "\<exists>s1 items. batch_items forward_numpyop no_pad (ds_ops ?self) (ds_mode ?self) None example_store
                      ([[0, 1], [0, 3]] ! 0) = Inr (s1, items)
            \<and> collatable (map (sample_of s1) items)
            \<and> stacked (map (sample_of s1) items)
                = [(''x'', Stack [Stack [Scalar (Fin 0), Scalar (Fin 1)],
                                  Stack [Scalar (Fin 1), Scalar (Fin 0)]])]"
    by (simp add: eval_defs collatable_def)
  then obtain s1 items where
    b: "batch_items forward_numpyop no_pad (ds_ops ?self) (ds_mode ?self) None example_store
          ([[0, 1], [0, 3]] ! 0) = Inr (s1, items)"
    and co: "collatable (map (sample_of s1) items)"
    and v: "stacked (map (sample_of s1) items)
                = [(''x'', Stack [Stack [Scalar (Fin 0), Scalar (Fin 1)],
                                  Stack [Scalar (Fin 1), Scalar (Fin 0)]])]"
    by blast
  have "\<exists>t1 jtems. batch_items forward_numpyop no_pad (ds_ops ?self) (ds_mode ?self) None example_store
                      ([[0, 1], [0, 3]] ! 1) = Inr (t1, jtems)
            \<and> \<not> collatable (map (sample_of t1) jtems)"
    by (simp add: eval_defs collatable_def)
  then obtain t1 jtems where
    b': "batch_items forward_numpyop no_pad (ds_ops ?self) (ds_mode ?self) None example_store
          ([[0, 1], [0, 3]] ! 1) = Inr (t1, jtems)"
    and nco: "\<not> collatable (map (sample_of t1) jtems)"
    by blast
  from OpDataset_getitem_collates[OF w st d i0 b] co v
  have ok: "\<exists>s2 m. OpDataset_getitem forward_numpyop no_pad ?self example_store 0 = Inr (s2, m)
              \<and> sample_of s2 m
                  = [(''x'', Stack [Stack [Scalar (Fin 0), Scalar (Fin 1)],
                                    Stack [Scalar (Fin 1), Scalar (Fin 0)]])]"
    by auto
  from OpDataset_getitem_collates[OF w st d i1 b'] nco
  have bad: "\<exists>e. OpDataset_getitem forward_numpyop no_pad ?self example_store 1 = Inl e"
    by auto
  show ?thesis using w st ok bad by simp
qed

text \<open>
  Claim C6. In a well-formed store, for a wrapped dataset whose stored mappings are
  allocated and a call of \<open>__getitem__\<close> that returns a mapping: the returned mapping is
  none of the stored objects; after any sequence of mutations of the returned mapping
  (assigning a key, removing a key, writing into a bound array in place) every stored
  mapping binds what it bound before the call and has the value it had; and a second call
  at the same index on the mutated store returns a mapping with the value the first call
  returned.
\<close>

theorem OpDataset_getitem_isolated:
  assumes "wf_store s" "stored_in (dataset self) s"
    and "OpDataset_getitem fwd pad self s index = Inr (s1, m)"
  shows "m \<notin> set (stored_dicts (dataset self))
     \<and> (\<forall>d\<in>set (stored_dicts (dataset self)).
            dicts (mutate m muts s1) d = dicts s d \<and> sample_of (mutate m muts s1) d = sample_of s d)
     \<and> (\<exists>s2 m2. OpDataset_getitem fwd pad self (mutate m muts s1) index = Inr (s2, m2)
            \<and> sample_of s2 m2 = sample_of s1 m)"
proof -
  note f = getitem_facts[OF assms(1,2), of fwd pad index]
  from f assms(3) have i1: "separated s s1 {m}"
    and v1: "getitem_value fwd pad self (sample_of s) index = Inr (sample_of s1 m)"
    by simp_all
  define s' where "s' = mutate m muts s1"
  have i': "separated s s' {m}" unfolding s'_def using i1 by (rule mutate_separated)
  note st = separated_stored[OF i' assms(1,2)]
  have fresh: "m \<notin> set (stored_dicts (dataset self))"
    using i1 assms(2) by (auto simp: separated_def owned_def stored_in_iff)
  have w': "wf_store s'" and st': "stored_in (dataset self) s'" using st by blast+
  have "getitem_value fwd pad self (sample_of s') index = getitem_value fwd pad self (sample_of s) index"
    using st by (intro getitem_value_cong) blast
  hence v': "getitem_value fwd pad self (sample_of s') index = Inr (sample_of s1 m)" using v1 by simp
  note f' = getitem_facts[OF w' st', of fwd pad index]
  have "\<exists>s2 m2. OpDataset_getitem fwd pad self s' index = Inr (s2, m2) \<and> sample_of s2 m2 = sample_of s1 m"
  proof (cases "OpDataset_getitem fwd pad self s' index")
    case (Inl e)
    with f' v' show ?thesis by simp
  next
    case (Inr p)
    obtain s2 m2 where "p = (s2, m2)" by (cases p)
    with f' v' Inr show ?thesis by simp
  qed
  thus ?thesis using fresh st unfolding s'_def by blast
qed

theorem OpDataset_getitem_isolated_witness:
  "wf_store example_store
   \<and> stored_in (Dataset [0] :: real dataset) example_store
   \<and> (\<exists>s1 m. OpDataset_getitem forward_numpyop no_pad
                 \<lparr>dataset = Dataset [0], ds_ops = example_ops, ds_mode = Some ''train''\<rparr>
                 example_store 0 = Inr (s1, m)
              \<and> sample_of s1 m = [(''x'', Stack [Scalar (Fin 0), Scalar (Fin 1)])]
              \<and> m \<noteq> 0
              \<and> sample_of (mutate m [WriteArray ''x'' (Scalar (Fin 9)), SetItem ''z'' (Scalar (Fin 1)), PopItem ''x''] s1) 0
                  = [(''x'', Stack [Scalar (Fin (2/10)), Scalar (Fin (7/10))])]
              \<and> (\<exists>s2 m2. OpDataset_getitem forward_numpyop no_pad
                    \<lparr>dataset = Dataset [0], ds_ops = example_ops, ds_mode = Some ''train''\<rparr>
                    (mutate m [WriteArray ''x'' (Scalar (Fin 9)), SetItem ''z'' (Scalar (Fin 1)), PopItem ''x''] s1) 0
                    = Inr (s2, m2)
                  \<and> sample_of s2 m2 = [(''x'', Stack [Scalar (Fin 0), Scalar (Fin 1)])]))"
proof -
  let ?self = "\<lparr>dataset = Dataset [0], ds_ops = example_ops, ds_mode = Some ''train''\<rparr>"
  let ?muts = "[WriteArray ''x'' (Scalar (Fin 9)), SetItem ''z'' (Scalar (Fin 1)), PopItem ''x'']"
  have w: "wf_store example_store" by (simp add: eval_defs)
  have st: "stored_in (dataset ?self) example_store" by (simp add: eval_defs)
  have "\<exists>s1 m. OpDataset_getitem forward_numpyop no_pad ?self example_store 0 = Inr (s1, m)
              \<and> sample_of s1 m = [(''x'', Stack [Scalar (Fin 0), Scalar (Fin 1)])]"
    by (simp add: eval_defs)
  then obtain s1 m where
    g: "OpDataset_getitem forward_numpyop no_pad ?self example_store 0 = Inr (s1, m)"
    and v: "sample_of s1 m = [(''x'', Stack [Scalar (Fin 0), Scalar (Fin 1)])]"
    by blast
  have s0: "sample_of example_store 0 = [(''x'', Stack [Scalar (Fin (2/10)), Scalar (Fin (7/10))])]"
    by (simp add: eval_defs)
  from OpDataset_getitem_isolated[OF w st g, of ?muts] v s0 w st g show ?thesis by auto
qed

end
